theory Spec2Isabelle
  imports Main "HOL-Library.Multiset"
begin

section \<open>JavaScript building blocks\<close>

text \<open>
  A JavaScript \<^verbatim>\<open>Map\<close> iterates in insertion order, \<^verbatim>\<open>set\<close> on a key that is
  present replaces the value where it stands, \<^verbatim>\<open>set\<close> on a new key appends, and
  \<^verbatim>\<open>delete\<close> removes the entry. It is modelled as an association list in
  insertion order.
\<close>

type_synonym ('k, 'v) jsmap = "('k \<times> 'v) list"

fun map_get :: "('k, 'v) jsmap \<Rightarrow> 'k \<Rightarrow> 'v option" where
  "map_get [] k = None"
| "map_get ((k', v) # m) k = (if k' = k then Some v else map_get m k)"

fun map_set :: "('k, 'v) jsmap \<Rightarrow> 'k \<Rightarrow> 'v \<Rightarrow> ('k, 'v) jsmap" where
  "map_set [] k v = [(k, v)]"
| "map_set ((k', v') # m) k v =
     (if k' = k then (k, v) # m else (k', v') # map_set m k v)"

fun map_delete :: "('k, 'v) jsmap \<Rightarrow> 'k \<Rightarrow> ('k, 'v) jsmap" where
  "map_delete [] k = []"
| "map_delete ((k', v) # m) k =
     (if k' = k then m else (k', v) # map_delete m k)"

definition map_has :: "('k, 'v) jsmap \<Rightarrow> 'k \<Rightarrow> bool" where
  "map_has m k = (map_get m k \<noteq> None)"

definition map_keys :: "('k, 'v) jsmap \<Rightarrow> 'k list" where
  "map_keys m = map fst m"

definition map_values :: "('k, 'v) jsmap \<Rightarrow> 'v list" where
  "map_values m = map snd m"

definition map_size :: "('k, 'v) jsmap \<Rightarrow> nat" where
  "map_size m = length m"

text \<open>
  \<^verbatim>\<open>Array.prototype.sort(cmp)\<close> is a stable sort: an element moves in front of
  another only when the comparator says so. The stable sort is written as an
  insertion sort; \<open>cmp a b \<le> 0\<close> keeps \<open>a\<close> in front of \<open>b\<close>.
\<close>

fun sort_insert :: "('a \<Rightarrow> 'a \<Rightarrow> int) \<Rightarrow> 'a \<Rightarrow> 'a list \<Rightarrow> 'a list" where
  "sort_insert cmp x [] = [x]"
| "sort_insert cmp x (y # ys) =
     (if cmp x y \<le> 0 then x # y # ys else y # sort_insert cmp x ys)"

fun array_sort :: "('a \<Rightarrow> 'a \<Rightarrow> int) \<Rightarrow> 'a list \<Rightarrow> 'a list" where
  "array_sort cmp [] = []"
| "array_sort cmp (x # xs) = sort_insert cmp x (array_sort cmp xs)"

text \<open>
  \<^verbatim>\<open>Array.prototype.slice(start)\<close> with one integer argument: a negative start
  counts from the end and is clamped at 0, a start beyond the end gives the empty
  array.
\<close>

definition array_slice :: "'a list \<Rightarrow> int \<Rightarrow> 'a list" where
  "array_slice xs start =
     (let n = int (length xs);
          k = (if start < 0 then max (n + start) 0 else min start n)
      in drop (nat k) xs)"

section \<open>IntegrationListener\<close>

subsection \<open>Data\<close>

text \<open>
  A handler is a JavaScript function supplied by the caller. The model gives a
  handler as the list of calls it makes on the listener it is registered with
  (each one awaited), and whether it throws after them. A value that is not a
  function is \<open>NotAFunction\<close>. Handlers may re-enter \<open>emit\<close>, \<open>on\<close> and \<open>off\<close>;
  the values that the code draws from \<^verbatim>\<open>Date.now()\<close> and \<^verbatim>\<open>Math.random()\<close>
  are arguments of the calls.
\<close>

record options =
  opt_once :: "bool option"
  opt_priority :: "int option"

datatype 'd hcall =
    CallEmit string 'd int string
  | CallOn string "'d hval" options string int
  | CallOff string string
and 'd hval =
    Function "'d hcall list" bool
  | NotAFunction

record 'd listener =
  l_id :: string
  l_handler :: "'d hval"
  l_once :: bool
  l_priority :: int
  l_createdAt :: int

record 'd event =
  e_type :: string
  e_data :: 'd
  e_timestamp :: int
  e_id :: string

text \<open>
  What an observer of the listener sees: an event is built and queued, a handler is
  called with an event, a listener is registered for an event type (the code logs
  it), all listeners of a type or of all types are removed (the code logs it). The
  field \<open>trace\<close> of the state records it and is read by no operation.
\<close>

datatype 'd obs =
    Emitted "'d event"
  | Invoked string "'d event"
  | Registered string string
  | RemovedAll "string option"

record 'd integration_listener =
  listeners :: "(string, (string, 'd listener) jsmap) jsmap"
  eventQueue :: "'d event list"
  initialized :: bool
  maxQueueSize :: nat
  trace :: "'d obs list"

datatype listener_error = NotInitialized | HandlerNotFunction

subsection \<open>Operations\<close>

definition constructor :: "'d integration_listener" where
  "constructor =
     \<lparr>listeners = [], eventQueue = [], initialized = False, maxQueueSize = 1000,
      trace = []\<rparr>"

definition init :: "'d integration_listener \<Rightarrow> 'd integration_listener" where
  "init s = (if initialized s then s else s\<lparr>initialized := True\<rparr>)"

definition or_false :: "bool option \<Rightarrow> bool" where
  "or_false b = (case b of None \<Rightarrow> False | Some v \<Rightarrow> v)"

definition or_zero :: "int option \<Rightarrow> int" where
  "or_zero p = (case p of None \<Rightarrow> 0 | Some v \<Rightarrow> v)"

definition new_listener :: "string \<Rightarrow> 'd hval \<Rightarrow> options \<Rightarrow> int \<Rightarrow> 'd listener" where
  "new_listener listenerId handler opts now =
     \<lparr>l_id = listenerId, l_handler = handler,
      l_once = or_false (opt_once opts),
      l_priority = or_zero (opt_priority opts),
      l_createdAt = now\<rparr>"

definition on ::
  "'d integration_listener \<Rightarrow> string \<Rightarrow> 'd hval \<Rightarrow> options \<Rightarrow> string \<Rightarrow> int
     \<Rightarrow> (listener_error + string) \<times> 'd integration_listener" where
  "on s eventType handler opts listenerId now =
     (if \<not> initialized s then (Inl NotInitialized, s)
      else if handler = NotAFunction then (Inl HandlerNotFunction, s)
      else
        let ls1 = (if \<not> map_has (listeners s) eventType
                   then map_set (listeners s) eventType [] else listeners s);
            listener = new_listener listenerId handler opts now;
            bucket = (case map_get ls1 eventType of None \<Rightarrow> [] | Some b \<Rightarrow> b)
        in (Inr listenerId,
            s\<lparr>listeners := map_set ls1 eventType (map_set bucket listenerId listener),
              trace := trace s @ [Registered eventType listenerId]\<rparr>))"

definition once ::
  "'d integration_listener \<Rightarrow> string \<Rightarrow> 'd hval \<Rightarrow> string \<Rightarrow> int
     \<Rightarrow> (listener_error + string) \<times> 'd integration_listener" where
  "once s eventType handler listenerId now =
     on s eventType handler \<lparr>opt_once = Some True, opt_priority = None\<rparr> listenerId now"

definition off ::
  "'d integration_listener \<Rightarrow> string \<Rightarrow> string
     \<Rightarrow> (listener_error + bool) \<times> 'd integration_listener" where
  "off s eventType listenerId =
     (if \<not> initialized s then (Inl NotInitialized, s)
      else case map_get (listeners s) eventType of
        Some bucket \<Rightarrow>
          (Inr (map_has bucket listenerId),
           s\<lparr>listeners := map_set (listeners s) eventType (map_delete bucket listenerId)\<rparr>)
      | None \<Rightarrow> (Inr False, s))"

definition removeAllListeners ::
  "'d integration_listener \<Rightarrow> string option
     \<Rightarrow> (listener_error + unit) \<times> 'd integration_listener" where
  "removeAllListeners s eventType =
     (if \<not> initialized s then (Inl NotInitialized, s)
      else case eventType of
        Some t \<Rightarrow>
          (if t \<noteq> []
           then (Inr (), s\<lparr>listeners := map_delete (listeners s) t,
                           trace := trace s @ [RemovedAll (Some t)]\<rparr>)
           else (Inr (), s\<lparr>listeners := [], trace := trace s @ [RemovedAll None]\<rparr>))
      | None \<Rightarrow> (Inr (), s\<lparr>listeners := [], trace := trace s @ [RemovedAll None]\<rparr>))"

definition addToQueue :: "'d integration_listener \<Rightarrow> 'd event \<Rightarrow> 'd integration_listener" where
  "addToQueue s ev =
     (let q = eventQueue s @ [ev]
      in s\<lparr>eventQueue := (if length q > maxQueueSize s then tl q else q)\<rparr>)"

definition by_priority :: "'d listener \<Rightarrow> 'd listener \<Rightarrow> int" where
  "by_priority a b = l_priority b - l_priority a"

definition remove_fired ::
  "'d integration_listener \<Rightarrow> string \<Rightarrow> string list \<Rightarrow> 'd integration_listener" where
  "remove_fired s eventType toRemove =
     (case map_get (listeners s) eventType of
        None \<Rightarrow> s
      | Some bucket \<Rightarrow>
          s\<lparr>listeners := map_set (listeners s) eventType (fold (\<lambda>i b. map_delete b i) toRemove bucket)\<rparr>)"

text \<open>
  \<open>emit\<close> awaits each handler before it calls the next one, so one emission runs a
  handler, with all the calls the handler makes, to its end. A handler that emits
  the event it listens to can go on for ever: the first argument bounds the depth of
  nested emissions, and \<open>None\<close> says that the bound was reached. Beside the number
  of handlers notified, \<open>emit\<close> gives the report of its own loop: the identifier of
  each handler it called, in the order of the calls, with \<open>True\<close> when the handler
  completed and \<open>False\<close> when it threw (calling a value that is not a
  function throws).

  The caller awaits each \<open>emit\<close>: two emissions started side by side, whose
  handlers would interleave at the \<^verbatim>\<open>await\<close>, are outside the model. A handler
  calls \<open>emit\<close>, \<open>on\<close> and \<open>off\<close> and not \<open>removeAllListeners\<close>, so the
  bucket that an emission took from the registry is still the bucket of the event
  type when the emission removes the one-time listeners from it.
\<close>

type_synonym report = "(string \<times> bool) list"

function
  emit :: "nat \<Rightarrow> 'd integration_listener \<Rightarrow> string \<Rightarrow> 'd \<Rightarrow> int \<Rightarrow> string
     \<Rightarrow> ((listener_error + nat) \<times> report \<times> 'd integration_listener) option"
and emit_loop :: "nat \<Rightarrow> 'd integration_listener \<Rightarrow> 'd event \<Rightarrow> 'd listener list
     \<Rightarrow> nat \<Rightarrow> string list \<Rightarrow> report
     \<Rightarrow> (nat \<times> string list \<times> report \<times> 'd integration_listener) option"
and run_calls :: "nat \<Rightarrow> 'd integration_listener \<Rightarrow> 'd hcall list
     \<Rightarrow> (bool \<times> 'd integration_listener) option"
where
  "emit 0 s eventType data now eventId = None"
| "emit (Suc n) s eventType data now eventId =
     (if \<not> initialized s then Some (Inl NotInitialized, [], s)
      else
        let ev = \<lparr>e_type = eventType, e_data = data, e_timestamp = now, e_id = eventId\<rparr>;
            s1 = (addToQueue s ev)\<lparr>trace := trace s @ [Emitted ev]\<rparr>
        in case map_get (listeners s1) eventType of
             None \<Rightarrow> Some (Inr 0, [], s1)
           | Some bucket \<Rightarrow>
               if map_size bucket = 0 then Some (Inr 0, [], s1)
               else
                 (case emit_loop n s1 ev (array_sort by_priority (map_values bucket)) 0 [] [] of
                    None \<Rightarrow> None
                  | Some (notified, toRemove, rep, s2) \<Rightarrow>
                      Some (Inr notified, rep, remove_fired s2 eventType toRemove)))"
| "emit_loop n s ev [] notified toRemove rep = Some (notified, toRemove, rep, s)"
| "emit_loop n s ev (l # ls) notified toRemove rep =
     (case l_handler l of
           NotAFunction \<Rightarrow>
             emit_loop n s ev ls notified toRemove (rep @ [(l_id l, False)])
         | Function calls throws \<Rightarrow>
             (case run_calls n (s\<lparr>trace := trace s @ [Invoked (l_id l) ev]\<rparr>) calls of
                None \<Rightarrow> None
              | Some (ok, s') \<Rightarrow>
                  if ok \<and> \<not> throws
                  then emit_loop n s' ev ls (notified + 1)
                         (if l_once l then toRemove @ [l_id l] else toRemove)
                         (rep @ [(l_id l, True)])
                  else emit_loop n s' ev ls notified toRemove (rep @ [(l_id l, False)])))"
| "run_calls n s [] = Some (True, s)"
| "run_calls n s (CallEmit eventType data now eventId # cs) =
     (case emit n s eventType data now eventId of
        None \<Rightarrow> None
      | Some (Inl e, rep, s') \<Rightarrow> Some (False, s')
      | Some (Inr k, rep, s') \<Rightarrow> run_calls n s' cs)"
| "run_calls n s (CallOn eventType handler opts listenerId now # cs) =
     (case on s eventType handler opts listenerId now of
        (Inl e, s') \<Rightarrow> Some (False, s')
      | (Inr i, s') \<Rightarrow> run_calls n s' cs)"
| "run_calls n s (CallOff eventType listenerId # cs) =
     (case off s eventType listenerId of
        (Inl e, s') \<Rightarrow> Some (False, s')
      | (Inr b, s') \<Rightarrow> run_calls n s' cs)"
  by pat_completeness auto
termination
  by (relation "inv_image (less_than <*lex*> less_than)
        (\<lambda>x. case x of
           Inl (n, s, t, d, now, i) \<Rightarrow> (3 * n, 0)
         | Inr (Inl (n, s, ev, ls, k, r, rep)) \<Rightarrow> (3 * n + 2, length ls)
         | Inr (Inr (n, s, cs)) \<Rightarrow> (3 * n + 1, length cs))")
     auto

definition getEventTypes :: "'d integration_listener \<Rightarrow> listener_error + string list" where
  "getEventTypes s =
     (if \<not> initialized s then Inl NotInitialized else Inr (map_keys (listeners s)))"

definition listenerCount :: "'d integration_listener \<Rightarrow> string \<Rightarrow> listener_error + nat" where
  "listenerCount s eventType =
     (if \<not> initialized s then Inl NotInitialized
      else case map_get (listeners s) eventType of
        Some bucket \<Rightarrow> Inr (map_size bucket)
      | None \<Rightarrow> Inr 0)"

definition getRecentEvents ::
  "'d integration_listener \<Rightarrow> int option \<Rightarrow> listener_error + 'd event list" where
  "getRecentEvents s limit =
     (if \<not> initialized s then Inl NotInitialized
      else Inr (array_slice (eventQueue s) (- (case limit of None \<Rightarrow> 10 | Some k \<Rightarrow> k))))"

definition clearQueue ::
  "'d integration_listener \<Rightarrow> (listener_error + unit) \<times> 'd integration_listener" where
  "clearQueue s =
     (if \<not> initialized s then (Inl NotInitialized, s) else (Inr (), s\<lparr>eventQueue := []\<rparr>))"

subsection \<open>Sequences of calls\<close>

text \<open>
  A subscription request is the arguments of one call of \<open>on\<close>;
  \<open>subscribe_all\<close> makes the calls one after the other, for one event type.
\<close>

record 'd subscription =
  sub_handler :: "'d hval"
  sub_options :: options
  sub_id :: string
  sub_now :: int

fun subscribe_all ::
  "'d integration_listener \<Rightarrow> string \<Rightarrow> 'd subscription list \<Rightarrow> 'd integration_listener" where
  "subscribe_all s eventType [] = s"
| "subscribe_all s eventType (r # rs) =
     subscribe_all (snd (on s eventType (sub_handler r) (sub_options r) (sub_id r) (sub_now r)))
       eventType rs"

definition listener_of :: "'d subscription \<Rightarrow> 'd listener" where
  "listener_of r = new_listener (sub_id r) (sub_handler r) (sub_options r) (sub_now r)"

text \<open>The subscriptions of an event type, in the iteration order of their \<^verbatim>\<open>Map\<close>.\<close>

definition subscriptions :: "'d integration_listener \<Rightarrow> string \<Rightarrow> 'd listener list" where
  "subscriptions s eventType =
     (case map_get (listeners s) eventType of None \<Rightarrow> [] | Some bucket \<Rightarrow> map_values bucket)"

definition subscription_ids :: "'d integration_listener \<Rightarrow> string \<Rightarrow> string list" where
  "subscription_ids s eventType =
     (case map_get (listeners s) eventType of None \<Rightarrow> [] | Some bucket \<Rightarrow> map_keys bucket)"

text \<open>A handler that does not call \<open>emit\<close> itself.\<close>

fun is_emit :: "'d hcall \<Rightarrow> bool" where
  "is_emit (CallEmit eventType data now eventId) = True"
| "is_emit (CallOn eventType handler opts listenerId now) = False"
| "is_emit (CallOff eventType listenerId) = False"

fun emits_nothing :: "'d hval \<Rightarrow> bool" where
  "emits_nothing NotAFunction = True"
| "emits_nothing (Function calls throws) = (filter is_emit calls = [])"

text \<open>Reading the trace: the events built, and how often a subscription's handler ran.\<close>

fun emitted :: "'d obs list \<Rightarrow> 'd event list" where
  "emitted [] = []"
| "emitted (Emitted ev # tr) = ev # emitted tr"
| "emitted (Invoked i ev # tr) = emitted tr"
| "emitted (Registered t i # tr) = emitted tr"
| "emitted (RemovedAll t # tr) = emitted tr"

fun invocations :: "string \<Rightarrow> 'd obs list \<Rightarrow> nat" where
  "invocations i [] = 0"
| "invocations i (Emitted ev # tr) = invocations i tr"
| "invocations i (Invoked j ev # tr) = (if j = i then Suc (invocations i tr) else invocations i tr)"
| "invocations i (Registered t j # tr) = invocations i tr"
| "invocations i (RemovedAll t # tr) = invocations i tr"

text \<open>
  The call of one handler as the loop of \<open>emit\<close> makes it inside its
  \<^verbatim>\<open>try\<close>: the outcome is \<open>True\<close> when the handler completed and \<open>False\<close>
  when it threw.
\<close>

definition await_handler ::
  "nat \<Rightarrow> 'd integration_listener \<Rightarrow> 'd event \<Rightarrow> 'd listener
     \<Rightarrow> (bool \<times> 'd integration_listener) option" where
  "await_handler n s ev l =
     (case l_handler l of
        NotAFunction \<Rightarrow> Some (False, s)
      | Function calls throws \<Rightarrow>
          (case run_calls n (s\<lparr>trace := trace s @ [Invoked (l_id l) ev]\<rparr>) calls of
             None \<Rightarrow> None
           | Some (ok, s') \<Rightarrow> Some (ok \<and> \<not> throws, s')))"

text \<open>
  The dispatch in the words of the specification, to compare \<open>emit\<close> with: each
  handler of the list is awaited, in the order of the list and from the state the
  handler before it left, whatever the outcome of the handlers before it; the
  outcomes are collected.
\<close>

fun notify_in_order ::
  "nat \<Rightarrow> 'd integration_listener \<Rightarrow> 'd event \<Rightarrow> 'd listener list
     \<Rightarrow> (bool list \<times> 'd integration_listener) option" where
  "notify_in_order n s ev [] = Some ([], s)"
| "notify_in_order n s ev (l # ls) =
     (case await_handler n s ev l of
        None \<Rightarrow> None
      | Some (ok, s1) \<Rightarrow>
          (case notify_in_order n s1 ev ls of
             None \<Rightarrow> None
           | Some (oks, s2) \<Rightarrow> Some (ok # oks, s2)))"

text \<open>
  What \<open>emit\<close> makes of the outcomes: the number of handlers that completed, the
  report, and the state without the one-time listeners whose handler completed.
\<close>

definition fired_once :: "'d listener list \<Rightarrow> bool list \<Rightarrow> string list" where
  "fired_once ls oks = map (l_id \<circ> fst) (filter (\<lambda>(l, ok). ok \<and> l_once l) (zip ls oks))"

definition emit_result ::
  "string \<Rightarrow> 'd listener list \<Rightarrow> bool list \<times> 'd integration_listener
     \<Rightarrow> (listener_error + nat) \<times> report \<times> 'd integration_listener" where
  "emit_result eventType ls r =
     (Inr (length (filter (\<lambda>ok. ok) (fst r))), zip (map l_id ls) (fst r),
      remove_fired (snd r) eventType (fired_once ls (fst r)))"

text \<open>
  The event types that the registrations and removals of a trace leave, from the
  types there were.
\<close>

fun types_after :: "'d obs list \<Rightarrow> string list \<Rightarrow> string list" where
  "types_after [] ts = ts"
| "types_after (Registered t i # tr) ts = types_after tr (if t \<in> set ts then ts else ts @ [t])"
| "types_after (RemovedAll (Some t) # tr) ts = types_after tr (removeAll t ts)"
| "types_after (RemovedAll None # tr) ts = types_after tr []"
| "types_after (Emitted ev # tr) ts = types_after tr ts"
| "types_after (Invoked i ev # tr) ts = types_after tr ts"

text \<open>
  A caller's sequence of operations on the listener: the calls a handler can make,
  and \<open>removeAllListeners\<close>. A call that throws leaves the state as
  it is and the caller goes on.
\<close>

datatype 'd op = Call "'d hcall" | RemoveAll "string option"

fun run :: "nat \<Rightarrow> 'd integration_listener \<Rightarrow> 'd op list \<Rightarrow> 'd integration_listener option" where
  "run n s [] = Some s"
| "run n s (Call c # ops) =
     (case run_calls n s [c] of
        None \<Rightarrow> None
      | Some (ok, s') \<Rightarrow> run n s' ops)"
| "run n s (RemoveAll eventType # ops) = run n (snd (removeAllListeners s eventType)) ops"

section \<open>MachinesAdapter\<close>

subsection \<open>Data\<close>

text \<open>
  A JavaScript object used as a dictionary is a map from property names to values:
  the map gives the object's own properties, and \<open>None\<close> says that the object has
  no own property of the name. A lookup \<^verbatim>\<open>obj[key]\<close> that finds no own property
  goes on to the prototype of the object. The tables of a machine are plain objects,
  whose prototype is \<^verbatim>\<open>Object.prototype\<close>: its members (ECMAScript, with Annex B)
  are found under every plain object.

  A value that such a lookup gives is a string, a number, or a built-in object or
  function, named by the member of \<^verbatim>\<open>Object.prototype\<close> it was reached through.
  A string is falsy when it is empty, a number when it is zero; an object or a
  function is truthy.
\<close>

type_synonym 'a obj = "string \<rightharpoonup> 'a"

datatype jsvalue = Str string | Num int | Native string

fun truthy :: "jsvalue \<Rightarrow> bool" where
  "truthy (Str s) = (s \<noteq> [])"
| "truthy (Num k) = (k \<noteq> 0)"
| "truthy (Native b) = True"

definition object_prototype :: "string list" where
  "object_prototype =
     [''constructor'', ''hasOwnProperty'', ''isPrototypeOf'', ''propertyIsEnumerable'',
      ''toLocaleString'', ''toString'', ''valueOf'', ''__proto__'', ''__defineGetter__'',
      ''__defineSetter__'', ''__lookupGetter__'', ''__lookupSetter__'']"

text \<open>
  What the built-in objects themselves hold is the engine's and not this
  repository's: the property lookup on a built-in object, and the string that a
  value other than a string becomes when it is used as a property name, are
  parameters of the model.
\<close>

record runtime =
  native_get :: "string \<Rightarrow> string \<Rightarrow> jsvalue option"
  native_key :: "jsvalue \<Rightarrow> string"

definition property_key :: "runtime \<Rightarrow> jsvalue \<Rightarrow> string" where
  "property_key rt v =
     (case v of
        Str s \<Rightarrow> s
      | Num k \<Rightarrow> native_key rt v
      | Native b \<Rightarrow> native_key rt v)"

text \<open>
  \<^verbatim>\<open>machine.transitions[currentState] || {}\<close>: the machine's own row for the
  state, or the member of \<^verbatim>\<open>Object.prototype\<close> of that name, or the empty object.
  \<^verbatim>\<open>transitions[event]\<close>: the row's own entry, or what the prototype chain gives.
\<close>

datatype row = Row "string obj" | Builtin string

definition get_row :: "(string obj) obj \<Rightarrow> string \<Rightarrow> row" where
  "get_row table key =
     (case table key of
        Some r \<Rightarrow> Row r
      | None \<Rightarrow> if key \<in> set object_prototype then Builtin key else Row Map.empty)"

definition get_entry :: "runtime \<Rightarrow> row \<Rightarrow> string \<Rightarrow> jsvalue option" where
  "get_entry rt r event =
     (case r of
        Row own \<Rightarrow>
          (case own event of
             Some destination \<Rightarrow> Some (Str destination)
           | None \<Rightarrow> if event \<in> set object_prototype then Some (Native event) else None)
      | Builtin b \<Rightarrow> native_get rt b event)"

record 'a config =
  c_type :: "string option"
  c_initialState :: "string option"
  c_states :: "'a obj option"
  c_transitions :: "(string obj) obj option"
  c_context :: "'a obj option"

record 'a machine =
  m_id :: string
  m_type :: string
  m_state :: jsvalue
  m_states :: "'a obj"
  m_transitions :: "(string obj) obj"
  m_context :: "'a obj"
  m_createdAt :: int
  m_updatedAt :: int

record 'a transition_result =
  r_success :: bool
  r_from :: jsvalue
  r_to :: jsvalue
  r_event :: string
  r_context :: "'a obj option"

text \<open>
  An adapter is an object with three asynchronous methods. What a method does lies
  outside the adapter layer: it is a function on the world \<open>'w\<close> (the adapter's
  own fields, the network) that fails with a value \<open>'e\<close> or gives a result. A
  method the object does not have is \<open>None\<close>.
\<close>

record ('a, 'e, 'w) adapter =
  a_connect :: "('a \<Rightarrow> 'w \<Rightarrow> ('e + unit) \<times> 'w) option"
  a_send :: "('a \<Rightarrow> 'w \<Rightarrow> ('e + 'a) \<times> 'w) option"
  a_receive :: "('w \<Rightarrow> ('e + 'a) \<times> 'w) option"

record ('a, 'e, 'w) machines_adapter =
  machines :: "(string, 'a machine) jsmap"
  adapters :: "(string, ('a, 'e, 'w) adapter) jsmap"
  ma_initialized :: bool

text \<open>
  The errors of the layer are \<^verbatim>\<open>Error\<close> objects told apart by their message;
  \<open>Thrown e\<close> is the value \<open>e\<close> that an adapter's own method threw, and
  \<open>NotCallable\<close> the \<^verbatim>\<open>TypeError\<close> of calling a missing method.
\<close>

datatype 'e adapter_error =
    AdapterNotInitialized
  | MachineNotFound string
  | InvalidAdapter
  | AdapterNotFound string
  | NotCallable
  | Thrown 'e

subsection \<open>Operations\<close>

definition ma_constructor :: "('a, 'e, 'w) machines_adapter" where
  "ma_constructor = \<lparr>machines = [], adapters = [], ma_initialized = False\<rparr>"

definition or_string :: "string option \<Rightarrow> string \<Rightarrow> string" where
  "or_string v d = (case v of None \<Rightarrow> d | Some x \<Rightarrow> if x = [] then d else x)"

definition or_empty :: "'b obj option \<Rightarrow> 'b obj" where
  "or_empty v = (case v of None \<Rightarrow> Map.empty | Some x \<Rightarrow> x)"

definition registerMachine ::
  "('a, 'e, 'w) machines_adapter \<Rightarrow> string \<Rightarrow> 'a config \<Rightarrow> int
     \<Rightarrow> ('e adapter_error + 'a machine) \<times> ('a, 'e, 'w) machines_adapter" where
  "registerMachine s machineId config now =
     (if \<not> ma_initialized s then (Inl AdapterNotInitialized, s)
      else
        let machine = \<lparr>m_id = machineId,
                       m_type = or_string (c_type config) ''generic'',
                       m_state = Str (or_string (c_initialState config) ''idle''),
                       m_states = or_empty (c_states config),
                       m_transitions = or_empty (c_transitions config),
                       m_context = or_empty (c_context config),
                       m_createdAt = now, m_updatedAt = now\<rparr>
        in (Inr machine, s\<lparr>machines := map_set (machines s) machineId machine\<rparr>))"

definition getMachine ::
  "('a, 'e, 'w) machines_adapter \<Rightarrow> string \<Rightarrow> 'e adapter_error + 'a machine option" where
  "getMachine s machineId =
     (if \<not> ma_initialized s then Inl AdapterNotInitialized
      else Inr (map_get (machines s) machineId))"

text \<open>
  \<open>transition\<close>: the payload is \<open>None\<close> when the caller passes a falsy value
  (\<^verbatim>\<open>null\<close>); a caller that passes none gets the default \<open>Some Map.empty\<close>.
  \<open>now\<close> is the value of \<^verbatim>\<open>Date.now()\<close>.
\<close>

definition transition ::
  "runtime \<Rightarrow> ('a, 'e, 'w) machines_adapter \<Rightarrow> string \<Rightarrow> string \<Rightarrow> 'a obj option \<Rightarrow> int
     \<Rightarrow> ('e adapter_error + 'a transition_result) \<times> ('a, 'e, 'w) machines_adapter" where
  "transition rt s machineId event payload now =
     (if \<not> ma_initialized s then (Inl AdapterNotInitialized, s)
      else case map_get (machines s) machineId of
        None \<Rightarrow> (Inl (MachineNotFound machineId), s)
      | Some machine \<Rightarrow>
          let currentState = m_state machine;
              transitions = get_row (m_transitions machine) (property_key rt currentState);
              rejected = \<lparr>r_success = False, r_from = currentState, r_to = currentState,
                          r_event = event, r_context = None\<rparr>
          in case get_entry rt transitions event of
               None \<Rightarrow> (Inr rejected, s)
             | Some nextState \<Rightarrow>
                 if \<not> truthy nextState then (Inr rejected, s)
                 else
                   let machine' = machine\<lparr>m_state := nextState, m_updatedAt := now,
                                    m_context := (case payload of
                                                    None \<Rightarrow> m_context machine
                                                  | Some p \<Rightarrow> m_context machine ++ p)\<rparr>
                   in (Inr \<lparr>r_success = True, r_from = currentState, r_to = nextState,
                             r_event = event, r_context = Some (m_context machine')\<rparr>,
                       s\<lparr>machines := map_set (machines s) machineId machine'\<rparr>))"

definition registerAdapter ::
  "('a, 'e, 'w) machines_adapter \<Rightarrow> string \<Rightarrow> ('a, 'e, 'w) adapter
     \<Rightarrow> ('e adapter_error + unit) \<times> ('a, 'e, 'w) machines_adapter" where
  "registerAdapter s adapterType adapter =
     (if \<not> ma_initialized s then (Inl AdapterNotInitialized, s)
      else if a_connect adapter = None \<or> a_send adapter = None \<or> a_receive adapter = None
      then (Inl InvalidAdapter, s)
      else (Inr (), s\<lparr>adapters := map_set (adapters s) adapterType adapter\<rparr>))"

text \<open>
  \<open>ma_init\<close> takes the two adapter objects that \<^verbatim>\<open>_registerDefaultAdapters\<close>
  builds (their methods call \<^verbatim>\<open>fetch\<close>) as arguments.
\<close>

definition ma_init ::
  "('a, 'e, 'w) machines_adapter \<Rightarrow> ('a, 'e, 'w) adapter \<Rightarrow> ('a, 'e, 'w) adapter
     \<Rightarrow> ('e adapter_error + unit) \<times> ('a, 'e, 'w) machines_adapter" where
  "ma_init s httpAdapter wsAdapter =
     (if ma_initialized s then (Inr (), s)
      else case registerAdapter (s\<lparr>ma_initialized := True\<rparr>) ''http'' httpAdapter of
        (Inl e, s1) \<Rightarrow> (Inl e, s1\<lparr>ma_initialized := False\<rparr>)
      | (Inr u, s1) \<Rightarrow>
          (case registerAdapter s1 ''websocket'' wsAdapter of
             (Inl e, s2) \<Rightarrow> (Inl e, s2\<lparr>ma_initialized := False\<rparr>)
           | (Inr u, s2) \<Rightarrow> (Inr (), s2)))"

definition getAdapter ::
  "('a, 'e, 'w) machines_adapter \<Rightarrow> string
     \<Rightarrow> 'e adapter_error + ('a, 'e, 'w) adapter option" where
  "getAdapter s adapterType =
     (if \<not> ma_initialized s then Inl AdapterNotInitialized
      else Inr (map_get (adapters s) adapterType))"

text \<open>
  \<open>connect\<close>, \<open>send\<close> and \<open>receive\<close> change no field of the layer; they give
  their result and the world after the call.
\<close>

definition connect ::
  "('a, 'e, 'w) machines_adapter \<Rightarrow> string \<Rightarrow> 'a \<Rightarrow> 'w \<Rightarrow> ('e adapter_error + bool) \<times> 'w" where
  "connect s adapterType config w =
     (if \<not> ma_initialized s then (Inl AdapterNotInitialized, w)
      else case map_get (adapters s) adapterType of
        None \<Rightarrow> (Inl (AdapterNotFound adapterType), w)
      | Some adapter \<Rightarrow>
          (case a_connect adapter of
             None \<Rightarrow> (Inl NotCallable, w)
           | Some f \<Rightarrow>
               (case f config w of
                  (Inl e, w') \<Rightarrow> (Inl (Thrown e), w')
                | (Inr u, w') \<Rightarrow> (Inr True, w'))))"

definition send ::
  "('a, 'e, 'w) machines_adapter \<Rightarrow> string \<Rightarrow> 'a \<Rightarrow> 'w \<Rightarrow> ('e adapter_error + 'a) \<times> 'w" where
  "send s adapterType data w =
     (if \<not> ma_initialized s then (Inl AdapterNotInitialized, w)
      else case map_get (adapters s) adapterType of
        None \<Rightarrow> (Inl (AdapterNotFound adapterType), w)
      | Some adapter \<Rightarrow>
          (case a_send adapter of
             None \<Rightarrow> (Inl NotCallable, w)
           | Some f \<Rightarrow>
               (case f data w of
                  (Inl e, w') \<Rightarrow> (Inl (Thrown e), w')
                | (Inr result, w') \<Rightarrow> (Inr result, w'))))"

definition receive ::
  "('a, 'e, 'w) machines_adapter \<Rightarrow> string \<Rightarrow> 'w \<Rightarrow> ('e adapter_error + 'a) \<times> 'w" where
  "receive s adapterType w =
     (if \<not> ma_initialized s then (Inl AdapterNotInitialized, w)
      else case map_get (adapters s) adapterType of
        None \<Rightarrow> (Inl (AdapterNotFound adapterType), w)
      | Some adapter \<Rightarrow>
          (case a_receive adapter of
             None \<Rightarrow> (Inl NotCallable, w)
           | Some f \<Rightarrow>
               (case f w of
                  (Inl e, w') \<Rightarrow> (Inl (Thrown e), w')
                | (Inr data, w') \<Rightarrow> (Inr data, w'))))"

definition getAllMachines ::
  "('a, 'e, 'w) machines_adapter \<Rightarrow> 'e adapter_error + 'a machine list" where
  "getAllMachines s =
     (if \<not> ma_initialized s then Inl AdapterNotInitialized else Inr (map_values (machines s)))"

definition getAllAdapters ::
  "('a, 'e, 'w) machines_adapter \<Rightarrow> 'e adapter_error + string list" where
  "getAllAdapters s =
     (if \<not> ma_initialized s then Inl AdapterNotInitialized else Inr (map_keys (adapters s)))"

section \<open>Example states\<close>

definition event_of :: "nat \<Rightarrow> unit event" where
  "event_of k = \<lparr>e_type = ''tick'', e_data = (), e_timestamp = int k, e_id = ''evt''\<rparr>"

definition three_events :: "unit integration_listener" where
  "three_events = (init constructor)\<lparr>eventQueue := [event_of 1, event_of 2, event_of 3]\<rparr>"

definition started :: "unit integration_listener" where
  "started = init constructor"

definition succeeds :: "unit hval" where
  "succeeds = Function [] False"

definition fails :: "unit hval" where
  "fails = Function [] True"

definition request :: "unit hval \<Rightarrow> int \<Rightarrow> string \<Rightarrow> unit subscription" where
  "request h p i =
     \<lparr>sub_handler = h, sub_options = \<lparr>opt_once = None, opt_priority = Some p\<rparr>,
      sub_id = i, sub_now = 0\<rparr>"



text \<open>
  The handler \<open>A\<close> throws; \<open>B\<close> registers a listener for \<open>y\<close> and \<open>C\<close>
  removes \<open>A\<close>, so that the state shows that both ran.
\<close>

definition a_throws :: "unit integration_listener" where
  "a_throws =
     subscribe_all (init constructor) ''x''
       [request fails 0 ''A'',
        request (Function [CallOn ''y'' succeeds \<lparr>opt_once = None, opt_priority = None\<rparr>
                             ''fromB'' 0] False) 0 ''B'',
        request (Function [CallOff ''x'' ''A''] False) 0 ''C'']"

definition full_queue :: "unit integration_listener" where
  "full_queue =
     (init constructor)\<lparr>maxQueueSize := 2, eventQueue := [event_of 1, event_of 2]\<rparr>"

definition small_queue :: "unit integration_listener" where
  "small_queue = (init constructor)\<lparr>maxQueueSize := 2\<rparr>"

definition tick :: "nat \<Rightarrow> unit op" where
  "tick k = Call (CallEmit ''tick'' () (int k) ''evt'')"

definition no_options :: options where
  "no_options = \<lparr>opt_once = None, opt_priority = None\<rparr>"

definition subscribe_unsubscribe :: "unit op list" where
  "subscribe_unsubscribe =
     [Call (CallOn ''x'' succeeds no_options ''l1'' 0), Call (CallOff ''x'' ''l1'')]"

definition after_unsubscribe :: "unit integration_listener" where
  "after_unsubscribe =
     snd (off (snd (on (init constructor) ''x'' succeeds no_options ''l1'' 0)) ''x'' ''l1'')"

definition two_types :: "unit op list" where
  "two_types =
     [Call (CallOn ''x'' succeeds no_options ''l1'' 0),
      Call (CallOn ''y'' succeeds no_options ''l2'' 0),
      Call (CallOff ''x'' ''l1''),
      Call (CallEmit ''y'' () 1 ''evt''),
      Call (CallOn ''z'' succeeds no_options ''l3'' 0),
      RemoveAll (Some ''y'')]"

text \<open>
  A one-time subscription and, after it, a subscription whose handler removes
  itself and emits the same event again:
  \<^verbatim>\<open>L.once('x', h); const id = L.on('x', async () => { L.off('x', id); await L.emit('x'); })\<close>.
\<close>

definition once_and_again :: "unit integration_listener" where
  "once_and_again =
     snd (on (snd (once (init constructor) ''x'' succeeds ''once'' 0)) ''x''
            (Function [CallOff ''x'' ''again'', CallEmit ''x'' () 2 ''inner''] False)
            no_options ''again'' 0)"

definition once_fails :: "unit integration_listener" where
  "once_fails = snd (once (init constructor) ''x'' fails ''once'' 0)"

definition failing_send :: "(nat, string, nat) adapter" where
  "failing_send =
     \<lparr>a_connect = Some (\<lambda>c w. (Inl ''refused'', Suc w)),
      a_send = Some (\<lambda>d w. (Inl ''boom'', Suc w)),
      a_receive = Some (\<lambda>w. (Inl ''closed'', Suc w))\<rparr>"

definition one_adapter :: "(nat, string, nat) machines_adapter" where
  "one_adapter = snd (ma_init ma_constructor failing_send failing_send)"

definition flow_config :: "nat config" where
  "flow_config =
     \<lparr>c_type = None, c_initialState = Some ''idle'', c_states = None,
      c_transitions = Some [''idle'' \<mapsto> [''start'' \<mapsto> ''processing''],
                            ''processing'' \<mapsto> [''complete'' \<mapsto> ''done'']],
      c_context = Some [''user'' \<mapsto> 1, ''step'' \<mapsto> 1]\<rparr>"

definition flow_adapter :: "(nat, string, nat) machines_adapter" where
  "flow_adapter = snd (registerMachine one_adapter ''flow'' flow_config 0)"

definition flow_machine :: "nat machine" where
  "flow_machine = \<lparr>m_id = ''flow'', m_type = ''generic'', m_state = Str ''idle'',
       m_states = Map.empty,
       m_transitions = [''idle'' \<mapsto> [''start'' \<mapsto> ''processing''],
                        ''processing'' \<mapsto> [''complete'' \<mapsto> ''done'']],
       m_context = [''user'' \<mapsto> 1, ''step'' \<mapsto> 1], m_createdAt = 0, m_updatedAt = 0\<rparr>"

definition blank_config :: "nat config" where
  "blank_config =
     \<lparr>c_type = None, c_initialState = Some ''idle'', c_states = None,
      c_transitions = Some [''idle'' \<mapsto> [''start'' \<mapsto> '''']],
      c_context = None\<rparr>"

definition blank_adapter :: "(nat, string, nat) machines_adapter" where
  "blank_adapter = snd (registerMachine one_adapter ''flow'' blank_config 0)"

definition blank_machine :: "nat machine" where
  "blank_machine = \<lparr>m_id = ''flow'', m_type = ''generic'', m_state = Str ''idle'',
       m_states = Map.empty, m_transitions = [''idle'' \<mapsto> [''start'' \<mapsto> '''']],
       m_context = Map.empty, m_createdAt = 0, m_updatedAt = 0\<rparr>"

section \<open>Properties of the event queue\<close>

lemma map_get_map_set: "map_get (map_set m k v) k' = (if k' = k then Some v else map_get m k')"
  by (induction m) auto

lemma array_slice_last:
  "0 < k \<Longrightarrow> array_slice xs (- k) = drop (length xs - nat (min k (int (length xs)))) xs"
  by (auto simp: array_slice_def Let_def min_def max_def nat_diff_distrib'
           intro!: arg_cong2[where f=drop])

text \<open>
  C10. On an initialized listener, \<open>getRecentEvents\<close> with a positive limit gives
  the last \<open>min limit (length history)\<close> events in the order of the history, and
  with limit 0 it gives the whole history: \<^verbatim>\<open>slice(-0)\<close> is \<^verbatim>\<open>slice(0)\<close>.
\<close>

theorem getRecentEvents_suffix:
  "initialized s \<Longrightarrow>
     (0 < limit \<longrightarrow>
        getRecentEvents s (Some limit) =
          Inr (drop (length (eventQueue s) - nat (min limit (int (length (eventQueue s)))))
                 (eventQueue s))) \<and>
     getRecentEvents s (Some 0) = Inr (eventQueue s)"
  by (simp add: getRecentEvents_def array_slice_last) (simp add: array_slice_def)

theorem getRecentEvents_suffix_witness:
  "initialized three_events \<and>
   getRecentEvents three_events (Some 2) = Inr [event_of 2, event_of 3] \<and>
   getRecentEvents three_events (Some 5) = Inr [event_of 1, event_of 2, event_of 3] \<and>
   getRecentEvents three_events (Some 0) = Inr [event_of 1, event_of 2, event_of 3]"
  using getRecentEvents_suffix [of three_events 2] getRecentEvents_suffix [of three_events 5]
  by (simp add: three_events_def init_def constructor_def)

lemma addToQueue_fields [simp]:
  "listeners (addToQueue s ev) = listeners s"
  "initialized (addToQueue s ev) = initialized s"
  "maxQueueSize (addToQueue s ev) = maxQueueSize s"
  "trace (addToQueue s ev) = trace s"
  by (simp_all add: addToQueue_def Let_def)

lemma listenerCount_zero:
  "initialized s \<Longrightarrow> listenerCount s t = Inr 0 \<longleftrightarrow>
     (case map_get (listeners s) t of None \<Rightarrow> True | Some b \<Rightarrow> map_size b = 0)"
  by (simp add: listenerCount_def split: option.splits)

text \<open>
  C5. On an initialized listener, \<open>emit\<close> on an event type with no subscription
  (no bucket, or an empty one) returns 0 without an error, calls no handler and
  changes no registration, and appends the event it built to the history queue: the
  queue is the old queue followed by the event while there is room, and the old
  queue without its oldest event followed by the event when the queue was full. The
  capacity is positive (the constructor sets it to 1000).
\<close>

theorem emit_without_subscriptions:
  assumes "initialized s" and "listenerCount s t = Inr 0" and "0 < maxQueueSize s"
  shows "\<exists>s'. emit (Suc n) s t d now i = Some (Inr 0, [], s') \<and>
           listeners s' = listeners s \<and> initialized s' \<and>
           maxQueueSize s' = maxQueueSize s \<and>
           trace s' = trace s @ [Emitted \<lparr>e_type = t, e_data = d, e_timestamp = now, e_id = i\<rparr>] \<and>
           (length (eventQueue s) < maxQueueSize s \<longrightarrow>
              eventQueue s' =
                eventQueue s @ [\<lparr>e_type = t, e_data = d, e_timestamp = now, e_id = i\<rparr>]) \<and>
           (maxQueueSize s \<le> length (eventQueue s) \<longrightarrow>
              eventQueue s' =
                tl (eventQueue s) @ [\<lparr>e_type = t, e_data = d, e_timestamp = now, e_id = i\<rparr>])"
proof -
  let ?ev = "\<lparr>e_type = t, e_data = d, e_timestamp = now, e_id = i\<rparr>"
  let ?s1 = "(addToQueue s ?ev)\<lparr>trace := trace s @ [Emitted ?ev]\<rparr>"
  from assms(1,2) have e: "emit (Suc n) s t d now i = Some (Inr 0, [], ?s1)"
    by (auto simp: listenerCount_zero Let_def split: option.splits)
  have "length (eventQueue s) < maxQueueSize s \<longrightarrow> eventQueue ?s1 = eventQueue s @ [?ev]"
    by (simp add: addToQueue_def Let_def)
  moreover have "maxQueueSize s \<le> length (eventQueue s) \<longrightarrow>
      eventQueue ?s1 = tl (eventQueue s) @ [?ev]"
    using assms(3) by (cases "eventQueue s") (auto simp: addToQueue_def Let_def)
  ultimately show ?thesis using e assms(1) by simp
qed

theorem emit_without_subscriptions_witness:
  "initialized three_events \<and> listenerCount three_events ''tick'' = Inr 0 \<and>
   0 < maxQueueSize three_events \<and>
   length (eventQueue three_events) < maxQueueSize three_events \<and>
   (\<exists>s'. emit (Suc 0) three_events ''tick'' () 4 ''evt'' = Some (Inr 0, [], s') \<and>
      eventQueue s' = [event_of 1, event_of 2, event_of 3, event_of 4]) \<and>
   initialized full_queue \<and> listenerCount full_queue ''tick'' = Inr 0 \<and>
   0 < maxQueueSize full_queue \<and>
   maxQueueSize full_queue \<le> length (eventQueue full_queue) \<and>
   (\<exists>s'. emit (Suc 0) full_queue ''tick'' () 4 ''evt'' = Some (Inr 0, [], s') \<and>
      eventQueue s' = [event_of 2, event_of 4])"
proof -
  have h: "initialized three_events" "listenerCount three_events ''tick'' = Inr 0"
    "0 < maxQueueSize three_events"
    and l: "length (eventQueue three_events) < maxQueueSize three_events"
    and q: "eventQueue three_events = [event_of 1, event_of 2, event_of 3]"
    by (simp_all add: three_events_def init_def constructor_def listenerCount_def)
  have h': "initialized full_queue" "listenerCount full_queue ''tick'' = Inr 0"
    "0 < maxQueueSize full_queue"
    and l': "maxQueueSize full_queue \<le> length (eventQueue full_queue)"
    and q': "eventQueue full_queue = [event_of 1, event_of 2]"
    by (simp_all add: full_queue_def init_def constructor_def listenerCount_def)
  from emit_without_subscriptions [OF h, of 0 "()" 4 "''evt''"] obtain s1 where
    e: "emit (Suc 0) three_events ''tick'' () 4 ''evt'' = Some (Inr 0, [], s1)"
    and k: "length (eventQueue three_events) < maxQueueSize three_events \<longrightarrow>
      eventQueue s1 = eventQueue three_events @
        [\<lparr>e_type = ''tick'', e_data = (), e_timestamp = 4, e_id = ''evt''\<rparr>]"
    by blast
  from k l q have "eventQueue s1 = [event_of 1, event_of 2, event_of 3, event_of 4]"
    by (simp add: event_of_def)
  with e have a: "\<exists>s'. emit (Suc 0) three_events ''tick'' () 4 ''evt'' = Some (Inr 0, [], s') \<and>
      eventQueue s' = [event_of 1, event_of 2, event_of 3, event_of 4]"
    by blast
  from emit_without_subscriptions [OF h', of 0 "()" 4 "''evt''"] obtain s2 where
    e': "emit (Suc 0) full_queue ''tick'' () 4 ''evt'' = Some (Inr 0, [], s2)"
    and k': "maxQueueSize full_queue \<le> length (eventQueue full_queue) \<longrightarrow>
      eventQueue s2 = tl (eventQueue full_queue) @
        [\<lparr>e_type = ''tick'', e_data = (), e_timestamp = 4, e_id = ''evt''\<rparr>]"
    by blast
  from k' l' q' have "eventQueue s2 = [event_of 2, event_of 4]"
    by (simp add: event_of_def)
  with e' have b: "\<exists>s'. emit (Suc 0) full_queue ''tick'' () 4 ''evt'' = Some (Inr 0, [], s') \<and>
      eventQueue s' = [event_of 2, event_of 4]"
    by blast
  from h l a h' l' b show ?thesis by blast
qed

section \<open>Sorting and registration\<close>

lemma mset_sort_insert: "mset (sort_insert cmp x ys) = add_mset x (mset ys)"
  by (induction ys) auto

lemma mset_array_sort: "mset (array_sort cmp xs) = mset xs"
  by (induction xs) (auto simp: mset_sort_insert)









lemma run_calls_returns:
  "filter is_emit cs = [] \<Longrightarrow> run_calls n s cs \<noteq> None"
proof (induction cs arbitrary: s)
  case Nil
  then show ?case by simp
next
  case (Cons c cs)
  then show ?case
    by (cases c) (auto split: prod.splits sum.splits if_splits)
qed

lemmas listener_eval =
  init_def constructor_def on_def once_def off_def Let_def map_has_def new_listener_def
  or_false_def or_zero_def addToQueue_def map_size_def map_values_def map_keys_def
  by_priority_def remove_fired_def subscription_ids_def subscriptions_def listener_of_def
  getEventTypes_def listenerCount_def

section \<open>Properties that hold along every sequence of operations\<close>

lemma run_calls_invariant:
  assumes o: "\<And>s t h opts l now. Inv s \<Longrightarrow> Inv (snd (on s t h opts l now))"
    and f: "\<And>s t l. Inv s \<Longrightarrow> Inv (snd (off s t l))"
    and e: "\<And>s t d now i r rep s'. Inv s \<Longrightarrow> emit n s t d now i = Some (r, rep, s') \<Longrightarrow> Inv s'"
  shows "Inv s \<Longrightarrow> run_calls n s cs = Some (ok, s') \<Longrightarrow> Inv s'"
proof (induction cs arbitrary: s)
  case Nil
  then show ?case by simp
next
  case (Cons c cs)
  show ?case
  proof (cases c)
    case (CallEmit t d now i)
    with Cons.prems obtain r rep s1 where
      em: "emit n s t d now i = Some (r, rep, s1)" by (auto split: option.splits)
    from e [OF Cons.prems(1) em] have i1: "Inv s1" .
    show ?thesis
    proof (cases r)
      case (Inl err)
      with Cons.prems CallEmit em i1 show ?thesis by simp
    next
      case (Inr k)
      with Cons.prems CallEmit em have "run_calls n s1 cs = Some (ok, s')" by simp
      from Cons.IH [OF i1 this] show ?thesis .
    qed
  next
    case (CallOn t h opts l now)
    obtain r s1 where on1: "on s t h opts l now = (r, s1)" by (cases "on s t h opts l now")
    from o [OF Cons.prems(1), of t h opts l now] on1 have i1: "Inv s1" by simp
    show ?thesis
    proof (cases r)
      case (Inl err)
      with Cons.prems CallOn on1 i1 show ?thesis by simp
    next
      case (Inr k)
      with Cons.prems CallOn on1 have "run_calls n s1 cs = Some (ok, s')" by simp
      from Cons.IH [OF i1 this] show ?thesis .
    qed
  next
    case (CallOff t l)
    obtain r s1 where off1: "off s t l = (r, s1)" by (cases "off s t l")
    from f [OF Cons.prems(1), of t l] off1 have i1: "Inv s1" by simp
    show ?thesis
    proof (cases r)
      case (Inl err)
      with Cons.prems CallOff off1 i1 show ?thesis by simp
    next
      case (Inr k)
      with Cons.prems CallOff off1 have "run_calls n s1 cs = Some (ok, s')" by simp
      from Cons.IH [OF i1 this] show ?thesis .
    qed
  qed
qed

lemma emit_loop_invariant:
  assumes v: "\<And>s l ev. Inv s \<Longrightarrow> Inv (s\<lparr>trace := trace s @ [Invoked l ev]\<rparr>)"
    and c: "\<And>s cs ok s'. Inv s \<Longrightarrow> run_calls n s cs = Some (ok, s') \<Longrightarrow> Inv s'"
  shows "Inv s \<Longrightarrow> emit_loop n s ev ls k tr rep = Some (k', tr', rep', s') \<Longrightarrow> Inv s'"
proof (induction ls arbitrary: s k tr rep)
  case Nil
  then show ?case by simp
next
  case (Cons l ls)
  show ?case
  proof (cases "l_handler l")
    case NotAFunction
    with Cons.prems have "emit_loop n s ev ls k tr (rep @ [(l_id l, False)]) = Some (k', tr', rep', s')"
      by simp
    from Cons.IH [OF Cons.prems(1) this] show ?thesis .
  next
    case (Function calls throws)
    with Cons.prems obtain ok s1 where
      rc: "run_calls n (s\<lparr>trace := trace s @ [Invoked (l_id l) ev]\<rparr>) calls = Some (ok, s1)"
      by (auto split: option.splits)
    from c [OF v [OF Cons.prems(1)] rc] have i1: "Inv s1" .
    from Cons.prems Function rc obtain k1 tr1 rep1 where
      "emit_loop n s1 ev ls k1 tr1 rep1 = Some (k', tr', rep', s')"
      by (auto split: if_splits)
    from Cons.IH [OF i1 this] show ?thesis .
  qed
qed

lemma emit_invariant:
  assumes q: "\<And>s ev. Inv s \<Longrightarrow> Inv ((addToQueue s ev)\<lparr>trace := trace s @ [Emitted ev]\<rparr>)"
    and v: "\<And>s l ev. Inv s \<Longrightarrow> Inv (s\<lparr>trace := trace s @ [Invoked l ev]\<rparr>)"
    and o: "\<And>s t h opts l now. Inv s \<Longrightarrow> Inv (snd (on s t h opts l now))"
    and f: "\<And>s t l. Inv s \<Longrightarrow> Inv (snd (off s t l))"
    and m: "\<And>s t ids. Inv s \<Longrightarrow> Inv (remove_fired s t ids)"
  shows "Inv s \<Longrightarrow> emit n s t d now i = Some (r, rep, s') \<Longrightarrow> Inv s'"
proof (induction n arbitrary: s t d now i r rep s')
  case 0
  then show ?case by simp
next
  case (Suc n)
  let ?ev = "\<lparr>e_type = t, e_data = d, e_timestamp = now, e_id = i\<rparr>"
  let ?s1 = "(addToQueue s ?ev)\<lparr>trace := trace s @ [Emitted ?ev]\<rparr>"
  have i1: "Inv ?s1" by (rule q [OF Suc.prems(1)])
  have calls: "\<And>s cs ok s'. Inv s \<Longrightarrow> run_calls n s cs = Some (ok, s') \<Longrightarrow> Inv s'"
    by (rule run_calls_invariant [where Inv = Inv, OF o f Suc.IH])
  show ?case
  proof (cases "initialized s")
    case False
    with Suc.prems show ?thesis by simp
  next
    case True
    show ?thesis
    proof (cases "map_get (listeners s) t")
      case None
      with Suc.prems True i1 show ?thesis by (auto simp: Let_def)
    next
      case (Some bucket)
      show ?thesis
      proof (cases "map_size bucket = 0")
        case True
        with Suc.prems \<open>initialized s\<close> Some i1 show ?thesis by (auto simp: Let_def)
      next
        case False
        with Suc.prems \<open>initialized s\<close> Some obtain k tr s2 where
          lp: "emit_loop n ?s1 ?ev (array_sort by_priority (map_values bucket)) 0 [] [] =
                 Some (k, tr, rep, s2)"
          and s': "s' = remove_fired s2 t tr"
          by (auto simp: Let_def split: option.splits)
        from emit_loop_invariant [where Inv = Inv, OF v calls i1 lp] have "Inv s2" .
        with s' m show ?thesis by simp
      qed
    qed
  qed
qed

lemma run_invariant:
  assumes q: "\<And>s ev. Inv s \<Longrightarrow> Inv ((addToQueue s ev)\<lparr>trace := trace s @ [Emitted ev]\<rparr>)"
    and v: "\<And>s l ev. Inv s \<Longrightarrow> Inv (s\<lparr>trace := trace s @ [Invoked l ev]\<rparr>)"
    and o: "\<And>s t h opts l now. Inv s \<Longrightarrow> Inv (snd (on s t h opts l now))"
    and f: "\<And>s t l. Inv s \<Longrightarrow> Inv (snd (off s t l))"
    and m: "\<And>s t ids. Inv s \<Longrightarrow> Inv (remove_fired s t ids)"
    and a: "\<And>s t. Inv s \<Longrightarrow> Inv (snd (removeAllListeners s t))"
  shows "Inv s \<Longrightarrow> run n s ops = Some s' \<Longrightarrow> Inv s'"
proof (induction ops arbitrary: s)
  case Nil
  then show ?case by simp
next
  case (Cons x ops)
  have calls: "\<And>s cs ok s'. Inv s \<Longrightarrow> run_calls n s cs = Some (ok, s') \<Longrightarrow> Inv s'"
    by (rule run_calls_invariant [where Inv = Inv, OF o f
          emit_invariant [where Inv = Inv, OF q v o f m]])
  show ?case
  proof (cases x)
    case (Call c)
    with Cons.prems obtain ok s1 where
      rc: "run_calls n s [c] = Some (ok, s1)" and rest: "run n s1 ops = Some s'"
      by (auto split: option.splits)
    from Cons.IH [OF calls [OF Cons.prems(1) rc] rest] show ?thesis .
  next
    case (RemoveAll t)
    with Cons.prems have "run n (snd (removeAllListeners s t)) ops = Some s'" by simp
    from Cons.IH [OF a [OF Cons.prems(1)] this] show ?thesis .
  qed
qed

lemma emitted_append: "emitted (a @ b) = emitted a @ emitted b"
  by (induction a rule: emitted.induct) auto

lemma queue_step:
  assumes "q = drop (length xs - cap) xs"
  shows "(if length (q @ [ev]) > cap then tl (q @ [ev]) else q @ [ev]) =
           drop (length (xs @ [ev]) - cap) (xs @ [ev])"
proof (cases "length xs < cap")
  case True
  with assms show ?thesis by simp
next
  case False
  then have le: "cap \<le> length xs" by simp
  then have len: "length q = cap" using assms by simp
  have "q @ [ev] = drop (length xs - cap) (xs @ [ev])" using assms by simp
  then have "tl (q @ [ev]) = drop (Suc (length xs - cap)) (xs @ [ev])"
    by (simp only: drop_Suc tl_drop)
  moreover have "Suc (length xs - cap) = length (xs @ [ev]) - cap" using le by simp
  ultimately show ?thesis using len by simp
qed

lemma frame_on:
  "eventQueue (snd (on s t h opts l now)) = eventQueue s"
  "maxQueueSize (snd (on s t h opts l now)) = maxQueueSize s"
  "\<exists>ext. trace (snd (on s t h opts l now)) = trace s @ ext \<and> emitted ext = []"
  by (simp_all add: on_def Let_def)

lemma frame_off:
  "eventQueue (snd (off s t l)) = eventQueue s"
  "maxQueueSize (snd (off s t l)) = maxQueueSize s"
  "trace (snd (off s t l)) = trace s"
  by (simp_all add: off_def split: option.splits)

lemma frame_remove_fired:
  "eventQueue (remove_fired s t ids) = eventQueue s"
  "maxQueueSize (remove_fired s t ids) = maxQueueSize s"
  "trace (remove_fired s t ids) = trace s"
  "initialized (remove_fired s t ids) = initialized s"
  by (simp_all add: remove_fired_def split: option.splits)

lemma frame_removeAllListeners:
  "eventQueue (snd (removeAllListeners s et)) = eventQueue s"
  "maxQueueSize (snd (removeAllListeners s et)) = maxQueueSize s"
  "\<exists>ext. trace (snd (removeAllListeners s et)) = trace s @ ext \<and> emitted ext = []"
  by (simp_all add: removeAllListeners_def split: option.splits)

lemma queue_invariant_steps:
  fixes s :: "'d integration_listener" and s0 :: "'d integration_listener"
  defines "Inv \<equiv> \<lambda>s1. \<exists>new. trace s1 = trace s0 @ new \<and> maxQueueSize s1 = maxQueueSize s0 \<and>
      eventQueue s1 = drop (length (eventQueue s0 @ emitted new) - maxQueueSize s0)
                        (eventQueue s0 @ emitted new)"
  shows "Inv s \<Longrightarrow> Inv ((addToQueue s ev)\<lparr>trace := trace s @ [Emitted ev]\<rparr>)"
    and "Inv s \<Longrightarrow> Inv (s\<lparr>trace := trace s @ [Invoked l ev]\<rparr>)"
    and "Inv s \<Longrightarrow> Inv (snd (on s t h opts l now))"
    and "Inv s \<Longrightarrow> Inv (snd (off s t l))"
    and "Inv s \<Longrightarrow> Inv (remove_fired s t ids)"
    and "Inv s \<Longrightarrow> Inv (snd (removeAllListeners s et))"
proof -
  have quiet: "Inv s1"
    if "Inv s" and "\<exists>ext. trace s1 = trace s @ ext \<and> emitted ext = []"
      and "eventQueue s1 = eventQueue s" and "maxQueueSize s1 = maxQueueSize s" for s1
  proof -
    from that(1) obtain new where n: "trace s = trace s0 @ new"
      "maxQueueSize s = maxQueueSize s0"
      "eventQueue s = drop (length (eventQueue s0 @ emitted new) - maxQueueSize s0)
                        (eventQueue s0 @ emitted new)"
      unfolding Inv_def by blast
    from that(2) obtain ext where e: "trace s1 = trace s @ ext" "emitted ext = []" by blast
    show ?thesis unfolding Inv_def
      using n e that(3,4) by (intro exI [of _ "new @ ext"]) (simp add: emitted_append)
  qed
  show "Inv s \<Longrightarrow> Inv ((addToQueue s ev)\<lparr>trace := trace s @ [Emitted ev]\<rparr>)"
  proof -
    assume "Inv s"
    then obtain new where n: "trace s = trace s0 @ new" "maxQueueSize s = maxQueueSize s0"
      "eventQueue s = drop (length (eventQueue s0 @ emitted new) - maxQueueSize s0)
                        (eventQueue s0 @ emitted new)"
      unfolding Inv_def by blast
    from queue_step [OF n(3), of ev]
    have "eventQueue (addToQueue s ev) =
        drop (length (eventQueue s0 @ emitted (new @ [Emitted ev])) - maxQueueSize s0)
          (eventQueue s0 @ emitted (new @ [Emitted ev]))"
      by (simp add: addToQueue_def Let_def n(2) emitted_append)
    with n(1,2) show ?thesis unfolding Inv_def
      by (intro exI [of _ "new @ [Emitted ev]"]) simp
  qed
  show "Inv s \<Longrightarrow> Inv (s\<lparr>trace := trace s @ [Invoked l ev]\<rparr>)"
    by (erule quiet) simp_all
  show "Inv s \<Longrightarrow> Inv (snd (on s t h opts l now))"
    by (erule quiet) (rule frame_on)+
  show "Inv s \<Longrightarrow> Inv (snd (off s t l))"
    by (erule quiet) (simp_all add: frame_off)
  show "Inv s \<Longrightarrow> Inv (remove_fired s t ids)"
    by (erule quiet) (simp_all add: frame_remove_fired)
  show "Inv s \<Longrightarrow> Inv (snd (removeAllListeners s et))"
    by (erule quiet) (rule frame_removeAllListeners)+
qed

text \<open>
  C4. Start from a listener whose history queue is within its capacity (the
  constructor gives an empty queue and the capacity 1000). After any sequence of
  operations (\<open>emit\<close>, \<open>on\<close>, \<open>off\<close>, \<open>removeAllListeners\<close>, with handlers
  that emit in their turn), the capacity is the same, the queue is no longer than
  the capacity, and it holds the old queue followed by the events built since, in
  the order they were built, without as many of the oldest as exceed the capacity.
\<close>

theorem queue_bounded_fifo:
  assumes "length (eventQueue s) \<le> maxQueueSize s" and "run n s ops = Some s'"
  shows "\<exists>new. trace s' = trace s @ new \<and>
           maxQueueSize s' = maxQueueSize s \<and>
           length (eventQueue s') \<le> maxQueueSize s \<and>
           eventQueue s' = drop (length (eventQueue s @ emitted new) - maxQueueSize s)
                             (eventQueue s @ emitted new)"
proof -
  let ?Inv = "\<lambda>s1. \<exists>new. trace s1 = trace s @ new \<and> maxQueueSize s1 = maxQueueSize s \<and>
      eventQueue s1 = drop (length (eventQueue s @ emitted new) - maxQueueSize s)
                        (eventQueue s @ emitted new)"
  have "?Inv s" using assms(1) by (intro exI [of _ "[]"]) simp
  from run_invariant [where Inv = ?Inv, OF queue_invariant_steps this assms(2)]
  obtain new where n: "trace s' = trace s @ new" "maxQueueSize s' = maxQueueSize s"
    "eventQueue s' = drop (length (eventQueue s @ emitted new) - maxQueueSize s)
                        (eventQueue s @ emitted new)"
    by blast
  from n(3) have "length (eventQueue s') \<le> maxQueueSize s" by simp
  with n show ?thesis by blast
qed

theorem queue_bounded_fifo_witness:
  "length (eventQueue small_queue) \<le> maxQueueSize small_queue \<and>
   maxQueueSize small_queue = 2 \<and>
   (\<exists>s'. run (Suc 0) small_queue [tick 1, tick 2, tick 3] = Some s' \<and>
      emitted (trace s') = [event_of 1, event_of 2, event_of 3] \<and>
      eventQueue s' = [event_of 2, event_of 3] \<and>
      length (eventQueue s') \<le> maxQueueSize small_queue)"
proof -
  have h: "length (eventQueue small_queue) \<le> maxQueueSize small_queue"
    and c: "maxQueueSize small_queue = 2"
    by (simp_all add: small_queue_def listener_eval tick_def event_of_def)
  obtain s' where r: "run (Suc 0) small_queue [tick 1, tick 2, tick 3] = Some s'"
    and t: "emitted (trace s') = [event_of 1, event_of 2, event_of 3]"
    and q: "eventQueue s' = [event_of 2, event_of 3]"
    by (simp add: small_queue_def listener_eval tick_def event_of_def)
  from queue_bounded_fifo [OF h r] have "length (eventQueue s') \<le> maxQueueSize small_queue"
    by blast
  with h c r t q show ?thesis by blast
qed

lemma map_keys_map_set:
  "map_keys (map_set m k v) = (if k \<in> set (map_keys m) then map_keys m else map_keys m @ [k])"
  by (induction m) (force simp: map_keys_def)+

lemma map_keys_Nil: "map_keys [] = []"
  by (simp add: map_keys_def)

lemma key_iff_get: "k \<in> set (map_keys m) \<longleftrightarrow> map_get m k \<noteq> None"
  by (induction m) (auto simp: map_keys_def)

text \<open>
  C8, as stated, fails: \<open>off\<close> removes the subscription and leaves its empty
  bucket in the registry, so after \<open>on\<close> and \<open>off\<close> of the one subscription
  of \<open>x\<close>, \<open>getEventTypes\<close> still gives \<open>x\<close> while \<open>x\<close> has no
  subscription.
\<close>

theorem event_types_keep_empty_bucket:
  "run 0 (init constructor) subscribe_unsubscribe = Some after_unsubscribe \<and>
   getEventTypes after_unsubscribe = Inr [''x''] \<and>
   listenerCount after_unsubscribe ''x'' = Inr 0"
  by (simp add: subscribe_unsubscribe_def after_unsubscribe_def listener_eval no_options_def
        succeeds_def)

lemma types_after_append: "types_after (a @ b) ts = types_after b (types_after a ts)"
  by (induction a ts rule: types_after.induct) simp_all

lemma map_keys_delete_distinct:
  "distinct (map_keys m) \<Longrightarrow> map_keys (map_delete m k) = removeAll k (map_keys m)"
proof (induction m)
  case Nil
  then show ?case by (simp add: map_keys_def)
next
  case (Cons a m)
  obtain k' v where a: "a = (k', v)" by (cases a)
  from Cons.prems a have k': "k' \<notin> set (map_keys m)" and d: "distinct (map_keys m)"
    by (simp_all add: map_keys_def)
  show ?case
  proof (cases "k' = k")
    case True
    with k' have "removeAll k (map_keys m) = map_keys m" by simp
    with a True show ?thesis by (simp add: map_keys_def)
  next
    case False
    with Cons.IH [OF d] a show ?thesis by (simp add: map_keys_def)
  qed
qed

lemma types_invariant_steps:
  fixes s :: "'d integration_listener" and s0 :: "'d integration_listener"
  defines "Inv \<equiv> \<lambda>s1. initialized s1 \<and> distinct (map_keys (listeners s1)) \<and>
      (\<exists>new. trace s1 = trace s0 @ new \<and>
         map_keys (listeners s1) = types_after new (map_keys (listeners s0)))"
  shows "Inv s \<Longrightarrow> Inv ((addToQueue s ev)\<lparr>trace := trace s @ [Emitted ev]\<rparr>)"
    and "Inv s \<Longrightarrow> Inv (s\<lparr>trace := trace s @ [Invoked l ev]\<rparr>)"
    and "Inv s \<Longrightarrow> Inv (snd (on s t h opts l now))"
    and "Inv s \<Longrightarrow> Inv (snd (off s t l))"
    and "Inv s \<Longrightarrow> Inv (remove_fired s t ids)"
    and "Inv s \<Longrightarrow> Inv (snd (removeAllListeners s et))"
proof -
  have step: "Inv s1"
    if "Inv s" and "initialized s1" and "trace s1 = trace s @ ext"
      and "map_keys (listeners s1) = types_after ext (map_keys (listeners s))"
      and "distinct (map_keys (listeners s1))" for s1 ext
  proof -
    from that(1) obtain new where n: "trace s = trace s0 @ new"
      "map_keys (listeners s) = types_after new (map_keys (listeners s0))"
      unfolding Inv_def by blast
    show ?thesis unfolding Inv_def
      using n that(2-5) by (auto intro!: exI [of _ "new @ ext"] simp: types_after_append)
  qed
  have base: "initialized s \<and> distinct (map_keys (listeners s))" if "Inv s"
    using that by (simp add: Inv_def)
  show "Inv s \<Longrightarrow> Inv ((addToQueue s ev)\<lparr>trace := trace s @ [Emitted ev]\<rparr>)"
    by (frule base, erule step [where ext = "[Emitted ev]"]) simp_all
  show "Inv s \<Longrightarrow> Inv (s\<lparr>trace := trace s @ [Invoked l ev]\<rparr>)"
    by (frule base, erule step [where ext = "[Invoked l ev]"]) simp_all
  show "Inv s \<Longrightarrow> Inv (snd (on s t h opts l now))"
  proof -
    assume i: "Inv s"
    show ?thesis
    proof (cases "initialized s \<and> h \<noteq> NotAFunction")
      case False
      then have "snd (on s t h opts l now) = s" by (auto simp: on_def)
      with i show ?thesis by simp
    next
      case True
      with base [OF i] show ?thesis
        by (intro step [where ext = "[Registered t l]", OF i])
           (auto simp: on_def Let_def map_keys_map_set map_has_def key_iff_get map_get_map_set)
    qed
  qed
  show "Inv s \<Longrightarrow> Inv (snd (off s t l))"
    by (frule base, erule step [where ext = "[]"])
       (auto simp: off_def map_keys_map_set key_iff_get split: option.splits)
  show "Inv s \<Longrightarrow> Inv (remove_fired s t ids)"
    by (frule base, erule step [where ext = "[]"])
       (auto simp: remove_fired_def map_keys_map_set key_iff_get split: option.splits)
  show "Inv s \<Longrightarrow> Inv (snd (removeAllListeners s et))"
  proof -
    assume i: "Inv s"
    from base [OF i] have ini: "initialized s" and d: "distinct (map_keys (listeners s))"
      by simp_all
    show ?thesis
    proof (cases "\<exists>t. et = Some t \<and> t \<noteq> []")
      case True
      then obtain t' where t': "et = Some t'" "t' \<noteq> []" by blast
      show ?thesis
        by (rule step [where ext = "[RemovedAll (Some t')]", OF i])
           (simp_all add: removeAllListeners_def ini t' map_keys_delete_distinct [OF d]
              distinct_removeAll [OF d])
    next
      case False
      show ?thesis
        using False
        by (intro step [where ext = "[RemovedAll None]", OF i])
           (auto simp: removeAllListeners_def ini map_keys_Nil split: option.splits)
    qed
  qed
qed

text \<open>
  C8, amended. After any sequence of \<open>on\<close>, \<open>off\<close>, \<open>removeAllListeners\<close>
  and \<open>emit\<close> on an initialized listener (handlers register and emit in their
  turn), \<open>getEventTypes\<close> gives, each once, exactly the event types that have a
  bucket in the registry. They are the types listed before, with every type added
  for which a listener was registered since and every type taken out that
  \<open>removeAllListeners\<close> removed since: \<open>off\<close> and the removal of one-time
  listeners change nothing. So every type with at least one subscription is listed,
  and a listed type without one has an empty bucket.
\<close>

theorem event_types_follow_registrations:
  assumes "initialized s" and "distinct (map_keys (listeners s))" and "run n s ops = Some s'"
  shows "\<exists>ts new. getEventTypes s = Inr ts \<and> trace s' = trace s @ new \<and>
           getEventTypes s' = Inr (types_after new ts) \<and>
           distinct (types_after new ts) \<and>
           (\<forall>t. t \<in> set (types_after new ts) \<longleftrightarrow>
              (listenerCount s' t \<noteq> Inr 0 \<or> map_get (listeners s') t = Some []))"
proof -
  let ?Inv = "\<lambda>s1. initialized s1 \<and> distinct (map_keys (listeners s1)) \<and>
      (\<exists>new. trace s1 = trace s @ new \<and>
         map_keys (listeners s1) = types_after new (map_keys (listeners s)))"
  have "?Inv s" using assms(1,2) by (auto intro: exI [of _ "[]"])
  from run_invariant [where Inv = ?Inv, OF types_invariant_steps this assms(3)]
  obtain new where i: "initialized s'" and d: "distinct (map_keys (listeners s'))"
    and t: "trace s' = trace s @ new"
    and k: "map_keys (listeners s') = types_after new (map_keys (listeners s))"
    by blast
  have "t \<in> set (map_keys (listeners s')) \<longleftrightarrow>
          (listenerCount s' t \<noteq> Inr 0 \<or> map_get (listeners s') t = Some [])" for t
    using i by (cases "map_get (listeners s') t")
      (auto simp: key_iff_get listenerCount_def map_size_def)
  with i d t k assms(1) show ?thesis by (auto simp: getEventTypes_def)
qed

theorem event_types_follow_registrations_witness:
  "initialized started \<and> distinct (map_keys (listeners started)) \<and>
   getEventTypes started = Inr [] \<and>
   (\<exists>s' new. run (Suc 0) started two_types = Some s' \<and>
      trace s' = trace started @ new \<and>
      new = [Registered ''x'' ''l1'', Registered ''y'' ''l2'',
             Emitted \<lparr>e_type = ''y'', e_data = (), e_timestamp = 1, e_id = ''evt''\<rparr>,
             Invoked ''l2'' \<lparr>e_type = ''y'', e_data = (), e_timestamp = 1, e_id = ''evt''\<rparr>,
             Registered ''z'' ''l3'', RemovedAll (Some ''y'')] \<and>
      getEventTypes s' = Inr (types_after new []) \<and>
      types_after new [] = [''x'', ''z''] \<and>
      listenerCount s' ''x'' = Inr 0 \<and> listenerCount s' ''y'' = Inr 0 \<and>
      listenerCount s' ''z'' = Inr 1)"
proof -
  let ?L = "init constructor :: unit integration_listener"
  let ?new = "[Registered ''x'' ''l1'', Registered ''y'' ''l2'',
             Emitted \<lparr>e_type = ''y'', e_data = (), e_timestamp = 1, e_id = ''evt''\<rparr>,
             Invoked ''l2'' \<lparr>e_type = ''y'', e_data = (), e_timestamp = 1, e_id = ''evt''\<rparr>,
             Registered ''z'' ''l3'', RemovedAll (Some ''y'')] :: unit obs list"
  have i: "initialized ?L"
    and d: "distinct (map_keys (listeners ?L))"
    and g: "getEventTypes ?L = Inr []"
    and t0: "trace ?L = []"
    by (simp_all add: listener_eval)
  obtain s' where r: "run (Suc 0) ?L two_types = Some s'"
    and t: "trace s' = ?new"
    and c: "listenerCount s' ''x'' = Inr 0" "listenerCount s' ''y'' = Inr 0"
      "listenerCount s' ''z'' = Inr 1"
    by (simp add: two_types_def listener_eval removeAllListeners_def no_options_def succeeds_def)
  from event_types_follow_registrations [OF i d r] obtain ts new where
    "getEventTypes ?L = Inr ts"
    "trace s' = trace ?L @ new"
    "getEventTypes s' = Inr (types_after new ts)"
    by blast
  with g t0 t have g': "getEventTypes s' = Inr (types_after ?new [])" by simp
  have ta: "types_after ?new [] = [''x'', ''z'']" by simp
  from r t t0 g' ta c have "\<exists>s' new. run (Suc 0) ?L two_types = Some s' \<and>
      trace s' = trace ?L @ new \<and> new = ?new \<and>
      getEventTypes s' = Inr (types_after new []) \<and>
      types_after new [] = [''x'', ''z''] \<and>
      listenerCount s' ''x'' = Inr 0 \<and> listenerCount s' ''y'' = Inr 0 \<and>
      listenerCount s' ''z'' = Inr 1"
    by (intro exI [of _ s'] exI [of _ ?new]) simp
  with i d g show ?thesis unfolding started_def by blast
qed

text \<open>
  C2. The code removes the one-time subscriptions that fired only after the
  loop over the handlers, and only those whose handler did not throw. In the first
  state a sibling's handler emits the event again while the one-time subscription
  is still registered: one \<open>emit\<close> calls the one-time handler twice. In the
  second state the one-time handler throws: it stays registered and the next
  \<open>emit\<close> calls it again.
\<close>

theorem once_handler_called_twice:
  "map_option fst (emit (Suc (Suc 0)) once_and_again ''x'' () 1 ''outer'') = Some (Inr 2) \<and>
   map_option (fst \<circ> snd) (emit (Suc (Suc 0)) once_and_again ''x'' () 1 ''outer'') =
     Some [(''once'', True), (''again'', True)] \<and>
   map_option (invocations ''once'' \<circ> trace \<circ> snd \<circ> snd)
     (emit (Suc (Suc 0)) once_and_again ''x'' () 1 ''outer'') = Some 2 \<and>
   map_option (invocations ''once'' \<circ> trace)
     (run (Suc 0) once_fails
        [Call (CallEmit ''x'' () 1 ''first''), Call (CallEmit ''x'' () 2 ''second'')]) = Some 2"
  by (simp add: once_and_again_def once_fails_def listener_eval no_options_def succeeds_def
        fails_def)

section \<open>Properties of dispatch in priority order\<close>

lemma map_set_same: "map_get m k = Some v \<Longrightarrow> map_set m k v = m"
  by (induction m) (auto split: if_splits)

lemma emit_loop_notify:
  "emit_loop n s ev ls k tr rep =
     (case notify_in_order n s ev ls of
        None \<Rightarrow> None
      | Some (oks, s2) \<Rightarrow>
          Some (k + length (filter (\<lambda>ok. ok) oks), tr @ fired_once ls oks,
                rep @ zip (map l_id ls) oks, s2))"
proof (induction ls arbitrary: s k tr rep)
  case Nil
  then show ?case by (simp add: fired_once_def)
next
  case (Cons l ls)
  show ?case
  proof (cases "await_handler n s ev l")
    case None
    then show ?thesis
      by (cases "l_handler l") (auto simp: await_handler_def split: option.splits)
  next
    case (Some r)
    obtain ok s1 where r: "r = (ok, s1)" by (cases r)
    show ?thesis
    proof (cases "l_handler l")
      case NotAFunction
      with Some r have "ok = False" "s1 = s" by (simp_all add: await_handler_def)
      with Some r NotAFunction Cons.IH [of s k tr "rep @ [(l_id l, False)]"]
      show ?thesis by (simp add: fired_once_def split: option.splits)
    next
      case (Function calls throws)
      with Some r obtain ok' where
        rc: "run_calls n (s\<lparr>trace := trace s @ [Invoked (l_id l) ev]\<rparr>) calls = Some (ok', s1)"
        and ok: "ok = (ok' \<and> \<not> throws)"
        by (auto simp: await_handler_def split: option.splits)
      show ?thesis
      proof (cases ok)
        case True
        with Some r Function rc ok
          Cons.IH [of s1 "k + 1" "if l_once l then tr @ [l_id l] else tr" "rep @ [(l_id l, True)]"]
        show ?thesis by (simp add: fired_once_def split: option.splits)
      next
        case False
        with Some r Function rc ok Cons.IH [of s1 k tr "rep @ [(l_id l, False)]"]
        show ?thesis by (auto simp add: fired_once_def split: option.splits)
      qed
    qed
  qed
qed

lemma emit_notify:
  assumes "initialized s"
  shows "emit (Suc n) s t d now i =
     map_option (emit_result t (array_sort by_priority (subscriptions s t)))
       (notify_in_order n
          ((addToQueue s \<lparr>e_type = t, e_data = d, e_timestamp = now, e_id = i\<rparr>)
             \<lparr>trace := trace s @ [Emitted \<lparr>e_type = t, e_data = d, e_timestamp = now, e_id = i\<rparr>]\<rparr>)
          \<lparr>e_type = t, e_data = d, e_timestamp = now, e_id = i\<rparr>
          (array_sort by_priority (subscriptions s t)))"
proof -
  let ?ev = "\<lparr>e_type = t, e_data = d, e_timestamp = now, e_id = i\<rparr>"
  let ?s1 = "(addToQueue s ?ev)\<lparr>trace := trace s @ [Emitted ?ev]\<rparr>"
  show ?thesis
  proof (cases "map_get (listeners s) t")
    case None
    with assms show ?thesis
      by (simp add: Let_def subscriptions_def emit_result_def fired_once_def remove_fired_def)
  next
    case (Some bucket)
    show ?thesis
    proof (cases "bucket = []")
      case True
      with Some have "map_set (listeners s) t [] = listeners s" by (simp add: map_set_same)
      with assms Some True show ?thesis
        by (simp add: Let_def subscriptions_def emit_result_def fired_once_def remove_fired_def
              map_size_def map_values_def)
    next
      case False
      with assms Some show ?thesis
        by (simp add: Let_def subscriptions_def map_size_def emit_loop_notify emit_result_def
              split: option.splits)
    qed
  qed
qed

lemma notify_length:
  "notify_in_order n s ev ls = Some (oks, s2) \<Longrightarrow> length oks = length ls"
  by (induction ls arbitrary: s oks) (auto split: option.splits)



lemma notify_returns:
  "\<forall>l \<in> set ls. emits_nothing (l_handler l) \<Longrightarrow> notify_in_order n s ev ls \<noteq> None"
proof (induction ls arbitrary: s)
  case Nil
  then show ?case by simp
next
  case (Cons l ls)
  have "await_handler n s ev l \<noteq> None"
  proof (cases "l_handler l")
    case NotAFunction
    then show ?thesis by (simp add: await_handler_def)
  next
    case (Function calls throws)
    with Cons.prems have "filter is_emit calls = []" by simp
    from run_calls_returns [OF this] Function show ?thesis
      by (auto simp: await_handler_def split: option.splits)
  qed
  then obtain ok s1 where a: "await_handler n s ev l = Some (ok, s1)" by auto
  from Cons.IH [of s1] Cons.prems obtain oks s2 where
    "notify_in_order n s1 ev ls = Some (oks, s2)" by auto
  with a show ?case by simp
qed



text \<open>
  C3. On an initialized listener, \<open>emit\<close> is the dispatch that awaits every handler
  of the sorted list in turn, whatever the handlers before it did: a handler that
  throws ends with the outcome \<open>False\<close> and the next handler is awaited from the
  state it left. An emission that returns gives no error, there is one outcome for
  each subscription, the result is the number of handlers that completed without
  throwing, and the one-time listeners removed are those that completed. The
  emission returns when no handler emits itself.
\<close>

theorem emit_isolates_failures:
  assumes "initialized s"
  shows "emit (Suc n) s t d now i =
           map_option (emit_result t (array_sort by_priority (subscriptions s t)))
             (notify_in_order n
                ((addToQueue s \<lparr>e_type = t, e_data = d, e_timestamp = now, e_id = i\<rparr>)
                   \<lparr>trace := trace s @
                      [Emitted \<lparr>e_type = t, e_data = d, e_timestamp = now, e_id = i\<rparr>]\<rparr>)
                \<lparr>e_type = t, e_data = d, e_timestamp = now, e_id = i\<rparr>
                (array_sort by_priority (subscriptions s t))) \<and>
         ((\<forall>l \<in> set (subscriptions s t). emits_nothing (l_handler l)) \<longrightarrow>
            emit (Suc n) s t d now i \<noteq> None) \<and>
         (\<forall>r rep s'. emit (Suc n) s t d now i = Some (r, rep, s') \<longrightarrow>
            (\<exists>oks s2.
               notify_in_order n
                 ((addToQueue s \<lparr>e_type = t, e_data = d, e_timestamp = now, e_id = i\<rparr>)
                    \<lparr>trace := trace s @
                       [Emitted \<lparr>e_type = t, e_data = d, e_timestamp = now, e_id = i\<rparr>]\<rparr>)
                 \<lparr>e_type = t, e_data = d, e_timestamp = now, e_id = i\<rparr>
                 (array_sort by_priority (subscriptions s t)) = Some (oks, s2) \<and>
               length oks = length (subscriptions s t) \<and>
               r = Inr (length (filter (\<lambda>ok. ok) oks)) \<and>
               rep = zip (map l_id (array_sort by_priority (subscriptions s t))) oks \<and>
               s' = remove_fired s2 t
                      (fired_once (array_sort by_priority (subscriptions s t)) oks)))"
proof -
  let ?ev = "\<lparr>e_type = t, e_data = d, e_timestamp = now, e_id = i\<rparr>"
  let ?s1 = "(addToQueue s ?ev)\<lparr>trace := trace s @ [Emitted ?ev]\<rparr>"
  let ?called = "array_sort by_priority (subscriptions s t)"
  note eq = emit_notify [OF assms, of n t d now i]
  have len: "length ?called = length (subscriptions s t)"
    by (metis mset_array_sort size_mset)
  have "(\<forall>l \<in> set (subscriptions s t). emits_nothing (l_handler l)) \<longrightarrow>
      emit (Suc n) s t d now i \<noteq> None"
  proof
    assume "\<forall>l \<in> set (subscriptions s t). emits_nothing (l_handler l)"
    then have "\<forall>l \<in> set ?called. emits_nothing (l_handler l)"
      by (simp flip: set_mset_mset add: mset_array_sort)
    from notify_returns [OF this, of n ?s1 ?ev] show "emit (Suc n) s t d now i \<noteq> None"
      unfolding eq by simp
  qed
  moreover have "\<exists>oks s2. notify_in_order n ?s1 ?ev ?called = Some (oks, s2) \<and>
               length oks = length (subscriptions s t) \<and>
               r = Inr (length (filter (\<lambda>ok. ok) oks)) \<and>
               rep = zip (map l_id ?called) oks \<and>
               s' = remove_fired s2 t (fired_once ?called oks)"
    if e: "emit (Suc n) s t d now i = Some (r, rep, s')" for r rep s'
  proof -
    from e [unfolded eq] obtain oks s2 where
      no: "notify_in_order n ?s1 ?ev ?called = Some (oks, s2)"
      and res: "(r, rep, s') = emit_result t ?called (oks, s2)"
      by auto
    from notify_length [OF no] len res no show ?thesis by (simp add: emit_result_def)
  qed
  ultimately show ?thesis using eq by blast
qed

theorem emit_isolates_failures_witness:
  "initialized a_throws \<and>
   map l_id (subscriptions a_throws ''x'') = [''A'', ''B'', ''C''] \<and>
   list_all (\<lambda>l. emits_nothing (l_handler l)) (subscriptions a_throws ''x'') \<and>
   (\<exists>s'. emit (Suc 0) a_throws ''x'' () 9 ''e'' =
           Some (Inr 2, [(''A'', False), (''B'', True), (''C'', True)], s') \<and>
      listenerCount s' ''y'' = Inr 1 \<and> listenerCount s' ''x'' = Inr 2 \<and>
      trace s' = trace a_throws @
        [Emitted \<lparr>e_type = ''x'', e_data = (), e_timestamp = 9, e_id = ''e''\<rparr>,
         Invoked ''A'' \<lparr>e_type = ''x'', e_data = (), e_timestamp = 9, e_id = ''e''\<rparr>,
         Invoked ''B'' \<lparr>e_type = ''x'', e_data = (), e_timestamp = 9, e_id = ''e''\<rparr>,
         Registered ''y'' ''fromB'',
         Invoked ''C'' \<lparr>e_type = ''x'', e_data = (), e_timestamp = 9, e_id = ''e''\<rparr>]) \<and>
   emit (Suc 0) a_throws ''x'' () 9 ''e'' \<noteq> None \<and>
   (\<exists>oks. length oks = length (subscriptions a_throws ''x'') \<and>
      (Inr 2 :: listener_error + nat) = Inr (length (filter (\<lambda>ok. ok) oks)) \<and>
      [(''A'', False), (''B'', True), (''C'', True)] =
        zip (map l_id (array_sort by_priority (subscriptions a_throws ''x''))) oks)"
proof -
  let ?ev = "\<lparr>e_type = ''x'', e_data = (), e_timestamp = 9, e_id = ''e''\<rparr>"
  have ini: "initialized a_throws"
    by (simp add: a_throws_def listener_eval request_def fails_def)
  have ids: "map l_id (subscriptions a_throws ''x'') = [''A'', ''B'', ''C'']"
    and ne: "list_all (\<lambda>l. emits_nothing (l_handler l)) (subscriptions a_throws ''x'')"
    by (simp_all add: a_throws_def listener_eval request_def fails_def)
  from ne have ne': "\<forall>l \<in> set (subscriptions a_throws ''x''). emits_nothing (l_handler l)"
    by (simp only: list_all_iff)
  obtain s' where e: "emit (Suc 0) a_throws ''x'' () 9 ''e'' =
      Some (Inr 2, [(''A'', False), (''B'', True), (''C'', True)], s')"
    and y: "listenerCount s' ''y'' = Inr 1" and x: "listenerCount s' ''x'' = Inr 2"
    and t: "trace s' = trace a_throws @
        [Emitted ?ev, Invoked ''A'' ?ev, Invoked ''B'' ?ev, Registered ''y'' ''fromB'',
         Invoked ''C'' ?ev]"
    by (simp add: a_throws_def listener_eval request_def fails_def succeeds_def)
  note th = emit_isolates_failures [OF ini, of 0 "''x''" "()" 9 "''e''"]
  from th ne' have nn: "emit (Suc 0) a_throws ''x'' () 9 ''e'' \<noteq> None" by blast
  from th e have "\<exists>oks. length oks = length (subscriptions a_throws ''x'') \<and>
      (Inr 2 :: listener_error + nat) = Inr (length (filter (\<lambda>ok. ok) oks)) \<and>
      [(''A'', False), (''B'', True), (''C'', True)] =
        zip (map l_id (array_sort by_priority (subscriptions a_throws ''x''))) oks"
    by blast
  with ini ids ne e y x t nn show ?thesis by blast
qed

section \<open>Properties of the adapter registry\<close>

text \<open>
  C9, as stated, fails on a layer that is not initialized: every method first
  tests \<open>initialized\<close>, so before \<open>init\<close> no adapter is registered for any
  type, \<open>getAdapter\<close> throws instead of returning nothing, and \<open>connect\<close>,
  \<open>send\<close> and \<open>receive\<close> fail with the not-initialized error, not with the
  adapter-not-found error.
\<close>

theorem uninitialized_adapter_layer:
  "map_get (adapters (ma_constructor :: (nat, string, nat) machines_adapter)) ''ftp'' = None \<and>
   getAdapter (ma_constructor :: (nat, string, nat) machines_adapter) ''ftp'' =
     Inl AdapterNotInitialized \<and>
   connect (ma_constructor :: (nat, string, nat) machines_adapter) ''ftp'' 5 0 =
     (Inl AdapterNotInitialized, 0) \<and>
   send (ma_constructor :: (nat, string, nat) machines_adapter) ''ftp'' 5 0 =
     (Inl AdapterNotInitialized, 0) \<and>
   receive (ma_constructor :: (nat, string, nat) machines_adapter) ''ftp'' 0 =
     (Inl AdapterNotInitialized, 0)"
  by (simp add: ma_constructor_def getAdapter_def connect_def send_def receive_def)

text \<open>
  C9, amended. On an initialized adapter layer, for a type with no registered
  adapter \<open>getAdapter\<close> returns nothing without an error, and \<open>connect\<close>,
  \<open>send\<close> and \<open>receive\<close> fail with the adapter-not-found error and leave the
  world as it was: no adapter method ran. For a registered adapter whose method
  fails with \<open>e\<close>, the call fails with that same \<open>e\<close>, and the world is the
  one the single call of the method left: nothing is tried again.
\<close>

theorem unregistered_adapter:
  assumes "ma_initialized s"
  shows "(map_get (adapters s) t = None \<longrightarrow>
            getAdapter s t = Inr None \<and>
            connect s t c w = (Inl (AdapterNotFound t), w) \<and>
            send s t d w = (Inl (AdapterNotFound t), w) \<and>
            receive s t w = (Inl (AdapterNotFound t), w)) \<and>
         (\<forall>a f e w'. map_get (adapters s) t = Some a \<longrightarrow>
            a_connect a = Some f \<and> f c w = (Inl e, w') \<longrightarrow>
            connect s t c w = (Inl (Thrown e), w')) \<and>
         (\<forall>a f e w'. map_get (adapters s) t = Some a \<longrightarrow>
            a_send a = Some f \<and> f d w = (Inl e, w') \<longrightarrow>
            send s t d w = (Inl (Thrown e), w')) \<and>
         (\<forall>a f e w'. map_get (adapters s) t = Some a \<longrightarrow>
            a_receive a = Some f \<and> f w = (Inl e, w') \<longrightarrow>
            receive s t w = (Inl (Thrown e), w'))"
  using assms by (simp add: getAdapter_def connect_def send_def receive_def)

theorem unregistered_adapter_witness:
  "ma_initialized one_adapter \<and>
   map_get (adapters one_adapter) ''ftp'' = None \<and>
   getAdapter one_adapter ''ftp'' = Inr None \<and>
   connect one_adapter ''ftp'' 5 0 = (Inl (AdapterNotFound ''ftp''), 0) \<and>
   send one_adapter ''ftp'' 5 0 = (Inl (AdapterNotFound ''ftp''), 0) \<and>
   receive one_adapter ''ftp'' 0 = (Inl (AdapterNotFound ''ftp''), 0) \<and>
   map_get (adapters one_adapter) ''http'' = Some failing_send \<and>
   connect one_adapter ''http'' 5 0 = (Inl (Thrown ''refused''), 1) \<and>
   send one_adapter ''http'' 5 0 = (Inl (Thrown ''boom''), 1) \<and>
   receive one_adapter ''http'' 0 = (Inl (Thrown ''closed''), 1)"
proof -
  have i: "ma_initialized one_adapter"
    by (simp add: one_adapter_def ma_init_def registerAdapter_def ma_constructor_def
          failing_send_def)
  have n: "map_get (adapters one_adapter) ''ftp'' = None"
    and h: "map_get (adapters one_adapter) ''http'' = Some failing_send"
    by (simp_all add: one_adapter_def ma_init_def registerAdapter_def ma_constructor_def
          failing_send_def)
  from unregistered_adapter [OF i, of "''ftp''" 5 0 5]
       unregistered_adapter [OF i, of "''http''" 5 0 5] i n h
  show ?thesis by (simp add: failing_send_def)
qed

section \<open>Properties of the transition engine\<close>

lemma one_adapter_initialized: "ma_initialized one_adapter"
  by (simp add: one_adapter_def ma_init_def registerAdapter_def ma_constructor_def failing_send_def)

lemma flow_adapter_initialized: "ma_initialized flow_adapter"
  using one_adapter_initialized by (simp add: flow_adapter_def registerMachine_def Let_def)

lemma flow_adapter_machine: "map_get (machines flow_adapter) ''flow'' = Some flow_machine"
  using one_adapter_initialized
  by (simp add: flow_adapter_def registerMachine_def Let_def map_get_map_set flow_machine_def
        flow_config_def or_string_def or_empty_def)

lemma flow_machine_state: "m_state flow_machine = Str ''idle''"
  by (simp add: flow_machine_def)

lemma flow_machine_row:
  "m_transitions flow_machine ''idle'' = Some [''start'' \<mapsto> ''processing'']"
  by (simp add: flow_machine_def)

lemma property_key_Str: "property_key rt (Str state) = state"
  by (simp add: property_key_def)

text \<open>
  C7. The code looks the event up with \<^verbatim>\<open>transitions[event]\<close>, which also finds
  the members that every plain object inherits from \<^verbatim>\<open>Object.prototype\<close>. The
  machine of the repository's test is in the state \<open>idle\<close>, whose row has the one
  entry \<open>start\<close>; for the event \<open>toString\<close> the table has no entry, and the
  transition is accepted all the same: the result says \<open>success = True\<close>, and the
  state of the machine is the built-in function, with \<open>updatedAt\<close> changed.
\<close>

theorem transition_inherited_event:
  "ma_initialized flow_adapter \<and>
   map_get (machines flow_adapter) ''flow'' = Some flow_machine \<and>
   m_state flow_machine = Str ''idle'' \<and>
   m_transitions flow_machine ''idle'' = Some [''start'' \<mapsto> ''processing''] \<and>
   [''start'' \<mapsto> ''processing''] ''toString'' = None \<and>
   fst (transition rt flow_adapter ''flow'' ''toString'' (Some Map.empty) 7) =
     Inr \<lparr>r_success = True, r_from = Str ''idle'', r_to = Native ''toString'',
          r_event = ''toString'', r_context = Some (m_context flow_machine)\<rparr> \<and>
   getMachine (snd (transition rt flow_adapter ''flow'' ''toString'' (Some Map.empty) 7)) ''flow'' =
     Inr (Some (flow_machine\<lparr>m_state := Native ''toString'', m_updatedAt := 7\<rparr>))"
proof -
  have e: "get_entry rt (get_row (m_transitions flow_machine) ''idle'') ''toString'' =
      Some (Native ''toString'')"
    by (simp add: get_entry_def get_row_def flow_machine_row object_prototype_def)
  have t: "transition rt flow_adapter ''flow'' ''toString'' (Some Map.empty) 7 =
      (Inr \<lparr>r_success = True, r_from = Str ''idle'', r_to = Native ''toString'',
            r_event = ''toString'', r_context = Some (m_context flow_machine)\<rparr>,
       flow_adapter\<lparr>machines := map_set (machines flow_adapter) ''flow''
         (flow_machine\<lparr>m_state := Native ''toString'', m_updatedAt := 7\<rparr>)\<rparr>)"
    by (simp add: transition_def flow_adapter_initialized flow_adapter_machine flow_machine_state
          property_key_Str e Let_def)
  have g: "getMachine (snd (transition rt flow_adapter ''flow'' ''toString'' (Some Map.empty) 7))
        ''flow'' = Inr (Some (flow_machine\<lparr>m_state := Native ''toString'', m_updatedAt := 7\<rparr>))"
    by (simp add: t getMachine_def flow_adapter_initialized map_get_map_set)
  have n: "[''start'' \<mapsto> ''processing''] ''toString'' = None" by simp
  from t have f: "fst (transition rt flow_adapter ''flow'' ''toString'' (Some Map.empty) 7) =
     Inr \<lparr>r_success = True, r_from = Str ''idle'', r_to = Native ''toString'',
          r_event = ''toString'', r_context = Some (m_context flow_machine)\<rparr>"
    by (simp only: fst_conv)
  show ?thesis
    by (intro conjI) (rule flow_adapter_initialized flow_adapter_machine flow_machine_state
         flow_machine_row n f g)+
qed

text \<open>
  What holds of a rejected transition: when neither the state nor the event is the
  name of a member of \<^verbatim>\<open>Object.prototype\<close> and the table has no entry, the
  transition is rejected and the layer is as before, also after any number of such
  attempts.
\<close>

lemma transition_rejected_own_names:
  assumes "ma_initialized s" and "map_get (machines s) machineId = Some m"
    and "\<forall>r. m_transitions m (property_key rt (m_state m)) = Some r \<longrightarrow> r ev = None"
    and "property_key rt (m_state m) \<notin> set object_prototype"
    and "ev \<notin> set object_prototype"
  shows "transition rt s machineId ev payload now =
           (Inr \<lparr>r_success = False, r_from = m_state m, r_to = m_state m, r_event = ev,
                 r_context = None\<rparr>, s) \<and>
         fold (\<lambda>(p, n) s'. snd (transition rt s' machineId ev p n)) attempts s = s"
proof -
  have "get_entry rt (get_row (m_transitions m) (property_key rt (m_state m))) ev = None"
    using assms(3-5)
    by (cases "m_transitions m (property_key rt (m_state m))")
       (simp_all add: get_entry_def get_row_def)
  then have one: "transition rt s machineId ev p n =
           (Inr \<lparr>r_success = False, r_from = m_state m, r_to = m_state m, r_event = ev,
                 r_context = None\<rparr>, s)" for p n
    using assms(1,2) by (simp add: transition_def Let_def)
  have "fold (\<lambda>(p, n) s'. snd (transition rt s' machineId ev p n)) attempts s = s"
    by (induction attempts) (simp_all add: one split: prod.splits)
  with one show ?thesis by simp
qed

text \<open>
  C6, as stated, fails for a destination that is the empty string: the code tests
  the entry for truthiness, and the empty string is falsy. The machine below has
  an entry for \<open>start\<close> at \<open>idle\<close> whose destination is empty, and the
  transition is rejected.
\<close>

theorem transition_blank_destination:
  "ma_initialized blank_adapter \<and>
   map_get (machines blank_adapter) ''flow'' = Some blank_machine \<and>
   m_state blank_machine = Str ''idle'' \<and>
   m_transitions blank_machine ''idle'' = Some [''start'' \<mapsto> ''''] \<and>
   [''start'' \<mapsto> ''''] ''start'' = Some '''' \<and>
   (\<forall>rt. transition rt blank_adapter ''flow'' ''start'' (Some Map.empty) 1 =
     (Inr \<lparr>r_success = False, r_from = Str ''idle'', r_to = Str ''idle'', r_event = ''start'',
           r_context = None\<rparr>, blank_adapter))"
  using one_adapter_initialized
  by (simp add: blank_adapter_def registerMachine_def Let_def map_get_map_set blank_config_def
         blank_machine_def or_string_def or_empty_def transition_def property_key_Str
         get_row_def get_entry_def)

text \<open>
  C6, amended. For a registered machine and an event for which the table has an
  entry with a non-empty destination at the current state, \<open>transition\<close> sets the
  state to the destination and \<open>updatedAt\<close> to the current time, replaces the
  context by the merge of the old context and the payload in which the payload's
  keys win (a falsy payload merges nothing), changes nothing else of the machine
  and no other machine, and returns \<open>success = True\<close> with the old state, the
  destination, the event and the new context.
\<close>

theorem transition_accepted:
  assumes "ma_initialized s" and "map_get (machines s) machineId = Some m"
    and "m_transitions m (property_key rt (m_state m)) = Some row"
    and "row ev = Some dest" and "dest \<noteq> []"
  shows "\<exists>s' m'.
           transition rt s machineId ev payload now =
             (Inr \<lparr>r_success = True, r_from = m_state m, r_to = Str dest, r_event = ev,
                   r_context = Some (m_context m')\<rparr>, s') \<and>
           getMachine s' machineId = Inr (Some m') \<and>
           m' = m\<lparr>m_state := Str dest, m_updatedAt := now, m_context := m_context m'\<rparr> \<and>
           (\<forall>k. m_context m' k =
              (case or_empty payload k of Some v \<Rightarrow> Some v | None \<Rightarrow> m_context m k)) \<and>
           (\<forall>other. other \<noteq> machineId \<longrightarrow>
              map_get (machines s') other = map_get (machines s) other)"
  using assms
  by (cases payload)
     (auto simp: transition_def or_empty_def Let_def getMachine_def map_get_map_set map_add_def
           get_row_def get_entry_def
           split: option.splits)

theorem transition_accepted_witness:
  "ma_initialized flow_adapter \<and> map_get (machines flow_adapter) ''flow'' = Some flow_machine \<and>
   m_state flow_machine = Str ''idle'' \<and>
   m_transitions flow_machine ''idle'' = Some [''start'' \<mapsto> ''processing''] \<and>
   [''start'' \<mapsto> ''processing''] ''start'' = Some ''processing'' \<and> ''processing'' \<noteq> [] \<and>
   m_context flow_machine = [''user'' \<mapsto> 1, ''step'' \<mapsto> 1] \<and>
   (\<forall>rt. \<exists>s' m'.
      transition rt flow_adapter ''flow'' ''start'' (Some [''step'' \<mapsto> 2, ''more'' \<mapsto> 3]) 7 =
        (Inr \<lparr>r_success = True, r_from = Str ''idle'', r_to = Str ''processing'',
              r_event = ''start'', r_context = Some (m_context m')\<rparr>, s') \<and>
      getMachine s' ''flow'' = Inr (Some m') \<and>
      m_state m' = Str ''processing'' \<and> m_updatedAt m' = 7 \<and>
      m_context m' ''user'' = Some 1 \<and> m_context m' ''step'' = Some 2 \<and>
      m_context m' ''more'' = Some 3)"
proof -
  have e: "[''start'' \<mapsto> ''processing''] ''start'' = Some ''processing''" by simp
  have d: "''processing'' \<noteq> []" by simp
  have c: "m_context flow_machine = [''user'' \<mapsto> 1, ''step'' \<mapsto> 1]"
    by (simp add: flow_machine_def)
  have main: "\<exists>s' m'.
      transition rt flow_adapter ''flow'' ''start'' (Some [''step'' \<mapsto> 2, ''more'' \<mapsto> 3]) 7 =
        (Inr \<lparr>r_success = True, r_from = Str ''idle'', r_to = Str ''processing'',
              r_event = ''start'', r_context = Some (m_context m')\<rparr>, s') \<and>
      getMachine s' ''flow'' = Inr (Some m') \<and>
      m_state m' = Str ''processing'' \<and> m_updatedAt m' = 7 \<and>
      m_context m' ''user'' = Some 1 \<and> m_context m' ''step'' = Some 2 \<and>
      m_context m' ''more'' = Some 3" for rt
  proof -
    have r: "m_transitions flow_machine (property_key rt (m_state flow_machine)) =
        Some [''start'' \<mapsto> ''processing'']"
      by (simp only: flow_machine_state property_key_Str flow_machine_row)
    from transition_accepted [OF flow_adapter_initialized flow_adapter_machine r e d,
        of "Some [''step'' \<mapsto> 2, ''more'' \<mapsto> 3]" 7]
    obtain s' m' where
      t: "transition rt flow_adapter ''flow'' ''start''
            (Some [''step'' \<mapsto> 2, ''more'' \<mapsto> 3]) 7 =
               (Inr \<lparr>r_success = True, r_from = m_state flow_machine, r_to = Str ''processing'',
                     r_event = ''start'', r_context = Some (m_context m')\<rparr>, s')"
      and gm: "getMachine s' ''flow'' = Inr (Some m')"
      and m': "m' = flow_machine\<lparr>m_state := Str ''processing'', m_updatedAt := 7,
                      m_context := m_context m'\<rparr>"
      and k: "\<forall>k. m_context m' k =
                (case or_empty (Some [''step'' \<mapsto> 2, ''more'' \<mapsto> 3]) k of
                   Some v \<Rightarrow> Some v | None \<Rightarrow> m_context flow_machine k)"
      by blast
    have st: "m_state m' = Str ''processing''" by (subst m') simp
    have up: "m_updatedAt m' = 7" by (subst m') simp
    have k1: "m_context m' ''user'' = Some 1" "m_context m' ''step'' = Some 2"
      "m_context m' ''more'' = Some 3"
      by (simp_all add: k or_empty_def c)
    from t have t': "transition rt flow_adapter ''flow'' ''start''
            (Some [''step'' \<mapsto> 2, ''more'' \<mapsto> 3]) 7 =
               (Inr \<lparr>r_success = True, r_from = Str ''idle'', r_to = Str ''processing'',
                     r_event = ''start'', r_context = Some (m_context m')\<rparr>, s')"
      by (simp only: flow_machine_state)
    from t' gm st up k1 show ?thesis by blast
  qed
  with flow_adapter_initialized flow_adapter_machine flow_machine_state flow_machine_row e d c
  show ?thesis by blast
qed

end
